theory Spec2Isabelle
  imports Complex_Main
begin

section \<open>Data model\<close>

text \<open>
  The program is a PyTorch training script (\<^verbatim>\<open>dcnet_rl.py\<close>).  A two-dimensional tensor
  is a list of rows; a row of token ids is an \<open>int list\<close> (a LongTensor row), a row of
  floating-point numbers is a \<open>real list\<close>.  Floating-point values are idealised as reals:
  rounding is not modelled, but a division whose divisor is zero, which in floating point
  gives \<^verbatim>\<open>nan\<close> or \<^verbatim>\<open>inf\<close> instead of a number, is a value of its own.

  Every raise of the source is a value of \<open>error\<close>.
\<close>

datatype error = NameError | ShapeError | IndexError | KeyError | ValueError | RuntimeError

text \<open>A tensor of shape \<open>(B, L)\<close>: \<open>B\<close> rows, each of \<open>L\<close> entries.\<close>

definition shape :: "nat \<Rightarrow> nat \<Rightarrow> 'a list list \<Rightarrow> bool" where
  "shape B L t = (length t = B \<and> list_all (\<lambda>row. length row = L) t)"

text \<open>The result of a floating-point division.\<close>

datatype quotient = Finite real | NotANumber

definition float_div :: "real \<Rightarrow> real \<Rightarrow> quotient" where
  "float_div n d = (if d = 0 then NotANumber else Finite (n / d))"

section \<open>Stringification of token sequences\<close>

text \<open>Python's \<^verbatim>\<open>str\<close> on an integer: decimal digits, a minus sign for negatives.\<close>

definition digit_char :: "nat \<Rightarrow> char" where
  "digit_char d = ''0123456789'' ! d"

fun str_nat :: "nat \<Rightarrow> string" where
  "str_nat n = (if n < 10 then [digit_char n]
                else str_nat (n div 10) @ [digit_char (n mod 10)])"

declare str_nat.simps [simp del]

definition str_int :: "int \<Rightarrow> string" where
  "str_int i = (if i < 0 then CHR ''-'' # str_nat (nat (- i)) else str_nat (nat i))"

text \<open>
  Python's \<^verbatim>\<open>str.strip()\<close>: drops the ASCII whitespace characters
  (codes 9 to 13, 28 to 32) from both ends.
\<close>

definition is_space :: "char \<Rightarrow> bool" where
  "is_space c = (c \<in> set [CHR 0x09, CHR 0x0A, CHR 0x0B, CHR 0x0C, CHR 0x0D,
                             CHR 0x1C, CHR 0x1D, CHR 0x1E, CHR 0x1F, CHR '' ''])"

definition strip :: "string \<Rightarrow> string" where
  "strip s = rev (dropWhile is_space (rev (dropWhile is_space s)))"

text \<open>
  \<^verbatim>\<open>array_to_str\<close>: the loop appends \<^verbatim>\<open>str(arr[i]) + ' '\<close> and only then tests
  \<^verbatim>\<open>arr[i] == 0\<close> to break; the accumulated string is stripped at the end.
\<close>

fun array_to_str_loop :: "int list \<Rightarrow> string \<Rightarrow> string" where
  "array_to_str_loop [] out = out"
| "array_to_str_loop (a # arr) out =
     (let out' = out @ str_int a @ '' ''
      in if a = 0 then out' else array_to_str_loop arr out')"

definition array_to_str :: "int list \<Rightarrow> string" where
  "array_to_str arr = strip (array_to_str_loop arr '''')"

text \<open>Joining words with single blanks, and two ways of cutting a sequence at its first 0.\<close>

fun join_blank :: "string list \<Rightarrow> string" where
  "join_blank [] = ''''"
| "join_blank [w] = w"
| "join_blank (w # ws) = w @ '' '' @ join_blank ws"

definition before_first_zero :: "int list \<Rightarrow> int list" where
  "before_first_zero arr = takeWhile (\<lambda>w. w \<noteq> 0) arr"

definition through_first_zero :: "int list \<Rightarrow> int list" where
  "through_first_zero arr = takeWhile (\<lambda>w. w \<noteq> 0) arr @ take 1 (dropWhile (\<lambda>w. w \<noteq> 0) arr)"

section \<open>The vocabulary\<close>

text \<open>
  \<^verbatim>\<open>word_map\<close> is a dictionary from words to ids, read from a JSON file: an association
  list with distinct keys.  \<^verbatim>\<open>word_map[w]\<close> raises \<^verbatim>\<open>KeyError\<close> on a missing key and
  \<^verbatim>\<open>len(word_map)\<close> is the number of entries.
\<close>

type_synonym word_map = "(string \<times> int) list"

definition lookup :: "word_map \<Rightarrow> string \<Rightarrow> error + int" where
  "lookup wm w = (case map_of wm w of None \<Rightarrow> Inl KeyError | Some i \<Rightarrow> Inr i)"

text \<open>Running a fallible function over a list, left to right, stopping at the first error.\<close>

fun traverse :: "('a \<Rightarrow> error + 'b) \<Rightarrow> 'a list \<Rightarrow> error + 'b list" where
  "traverse f [] = Inr []"
| "traverse f (x # xs) =
     (case f x of Inl e \<Rightarrow> Inl e
      | Inr y \<Rightarrow> (case traverse f xs of Inl e \<Rightarrow> Inl e | Inr ys \<Rightarrow> Inr (y # ys)))"

section \<open>Reference captions: \<^verbatim>\<open>preprocess_gd\<close>\<close>

text \<open>
  The comprehension \<^verbatim>\<open>[w for w in c if w not in {word_map['<start>'], word_map['<pad>']}]\<close>
  looks both keys up once per element, so an empty caption never raises.
\<close>

definition strip_start_pad :: "word_map \<Rightarrow> int list \<Rightarrow> error + int list" where
  "strip_start_pad wm c =
     (if c = [] then Inr []
      else case lookup wm ''<start>'' of Inl e \<Rightarrow> Inl e
           | Inr s \<Rightarrow> (case lookup wm ''<pad>'' of Inl e \<Rightarrow> Inl e
                       | Inr p \<Rightarrow> Inr (filter (\<lambda>w. w \<notin> {s, p}) c)))"

text \<open>\<^verbatim>\<open>[w if w != word_map['<end>'] else 0 for w in c]\<close>\<close>

definition end_to_zero :: "word_map \<Rightarrow> int list \<Rightarrow> error + int list" where
  "end_to_zero wm c =
     (if c = [] then Inr []
      else case lookup wm ''<end>'' of Inl e \<Rightarrow> Inl e
           | Inr e \<Rightarrow> Inr (map (\<lambda>w. if w \<noteq> e then w else 0) c))"

text \<open>
  The loop over the images of the batch; \<open>ground_truth\<close> is the list being appended to.
\<close>

fun preprocess_gd_loop ::
  "word_map \<Rightarrow> int list list list \<Rightarrow> int list list list \<Rightarrow> error + int list list list" where
  "preprocess_gd_loop wm [] ground_truth = Inr ground_truth"
| "preprocess_gd_loop wm (img_caps # rest) ground_truth =
     (case traverse (strip_start_pad wm) img_caps of Inl e \<Rightarrow> Inl e
      | Inr img_captions \<Rightarrow>
          (case traverse (end_to_zero wm) img_captions of Inl e \<Rightarrow> Inl e
           | Inr img_captions_z \<Rightarrow>
               preprocess_gd_loop wm rest (ground_truth @ [img_captions_z])))"

definition preprocess_gd :: "int list list list \<Rightarrow> word_map \<Rightarrow> error + int list list list" where
  "preprocess_gd allcaps wm = preprocess_gd_loop wm allcaps []"

section \<open>The policy-gradient loss: \<^verbatim>\<open>RewardCriterion.forward\<close>\<close>

text \<open>\<^verbatim>\<open>t.view(-1)\<close>: the rows of a contiguous tensor one after the other.\<close>

definition view_flat :: "'a list list \<Rightarrow> 'a list" where
  "view_flat t = concat t"

text \<open>
  An elementwise operation on one-dimensional tensors, with PyTorch's (and numpy's)
  broadcasting: equal sizes, or one of the two of size 1; anything else raises.
\<close>

definition broadcast :: "('a \<Rightarrow> 'a \<Rightarrow> 'a) \<Rightarrow> 'a list \<Rightarrow> 'a list \<Rightarrow> error + 'a list" where
  "broadcast f xs ys =
     (if length xs = length ys then Inr (map2 f xs ys)
      else if length xs = 1 then Inr (map (f (hd xs)) ys)
      else if length ys = 1 then Inr (map (\<lambda>x. f x (hd ys)) xs)
      else Inl ShapeError)"

text \<open>\<^verbatim>\<open>(seq > 0).float()\<close>\<close>

definition positive_mask :: "int list list \<Rightarrow> real list list" where
  "positive_mask seq = map (map (\<lambda>w. if w > 0 then 1 else 0)) seq"

text \<open>
  \<^verbatim>\<open>torch.cat([mask.new(mask.size(0), 1).fill_(1), mask[:, :-1]], 1)\<close>: every row gets
  a leading 1 and loses its last entry.
\<close>

definition shift_mask :: "real list list \<Rightarrow> real list list" where
  "shift_mask m = map (\<lambda>row. 1 # butlast row) m"

definition RewardCriterion_forward ::
  "real list list \<Rightarrow> int list list \<Rightarrow> real list list \<Rightarrow> error + quotient" where
  "RewardCriterion_forward sample_logprobs seq reward =
     (let sample_logprobs = view_flat sample_logprobs;
          reward = view_flat reward;
          mask0 = positive_mask seq;
          mask1 = shift_mask mask0;
          mask2 = view_flat mask1
      in case broadcast (*) (map uminus sample_logprobs) reward of
           Inl e \<Rightarrow> Inl e
         | Inr lr \<Rightarrow>
             (case broadcast (*) lr mask2 of
                Inl e \<Rightarrow> Inl e
              | Inr output \<Rightarrow> Inr (float_div (sum_list output) (sum_list mask2))))"

text \<open>The shifted mask of the contract, position by position.\<close>

definition shifted_mask_at :: "int list list \<Rightarrow> nat \<Rightarrow> nat \<Rightarrow> real" where
  "shifted_mask_at seq b t = (if t = 0 then 1 else if seq ! b ! (t - 1) > 0 then 1 else 0)"

section \<open>The self-critical reward: \<^verbatim>\<open>get_self_critical_reward\<close>\<close>

text \<open>
  The scorer (\<^verbatim>\<open>CiderD\<close> with its cached document frequencies) is an external
  collaborator and a parameter here.  \<^verbatim>\<open>compute_score(gts, res_)\<close> takes the dictionary
  of reference strings per image id and the list of records \<^verbatim>\<open>{image_id, caption}\<close>;
  of the pair it returns the source keeps the second component, one score per record.
\<close>

type_synonym scorer = "(nat \<rightharpoonup> string list) \<Rightarrow> (nat \<times> string list) list \<Rightarrow> real list"

definition dict_get :: "('k \<rightharpoonup> 'v) \<Rightarrow> 'k \<Rightarrow> error + 'v" where
  "dict_get d k = (case d k of None \<Rightarrow> Inl KeyError | Some v \<Rightarrow> Inr v)"

text \<open>
  The loops \<^verbatim>\<open>res[off + i] = [array_to_str(rows[i])]\<close> over \<^verbatim>\<open>range(batch_size)\<close>:
  indexing a row the tensor does not have raises.
\<close>

fun fill_res ::
  "nat \<Rightarrow> int list list \<Rightarrow> nat list \<Rightarrow> (nat \<rightharpoonup> string list) \<Rightarrow> error + (nat \<rightharpoonup> string list)" where
  "fill_res off rows [] res = Inr res"
| "fill_res off rows (i # rest) res =
     (if i < length rows
      then fill_res off rows rest (res(off + i \<mapsto> [array_to_str (rows ! i)]))
      else Inl IndexError)"

text \<open>The loop \<^verbatim>\<open>gts[i] = [array_to_str(ground_truth[i][j]) for j in ...]\<close>.\<close>

fun fill_gts ::
  "int list list list \<Rightarrow> nat list \<Rightarrow> (nat \<rightharpoonup> string list) \<Rightarrow> (nat \<rightharpoonup> string list)" where
  "fill_gts ground_truth [] gts = gts"
| "fill_gts ground_truth (i # rest) gts =
     fill_gts ground_truth rest (gts(i \<mapsto> map array_to_str (ground_truth ! i)))"

text \<open>\<^verbatim>\<open>t.shape[1]\<close> of a two-dimensional tensor given by its rows.\<close>

definition ncols :: "'a list list \<Rightarrow> nat" where
  "ncols t = (case t of [] \<Rightarrow> 0 | row # _ \<Rightarrow> length row)"

definition get_self_critical_reward ::
  "scorer \<Rightarrow> int list list \<Rightarrow> int list list \<Rightarrow> int list list list \<Rightarrow> real
     \<Rightarrow> error + real list list" where
  "get_self_critical_reward CiderD_scorer gen_result greedy_res ground_truth cider_weight =
     (let batch_size = length gen_result in
      case fill_res 0 gen_result [0..<batch_size] Map.empty of Inl e \<Rightarrow> Inl e
      | Inr res1 \<Rightarrow>
      (case fill_res batch_size greedy_res [0..<batch_size] res1 of Inl e \<Rightarrow> Inl e
       | Inr res \<Rightarrow>
       (let gts = fill_gts ground_truth [0..<length ground_truth] Map.empty in
        case traverse (\<lambda>i. map_sum id (Pair i) (dict_get res i)) [0..<2 * batch_size] of
          Inl e \<Rightarrow> Inl e
        | Inr res_list \<Rightarrow>
        (case traverse (\<lambda>i. map_sum id (Pair i) (dict_get gts (i mod batch_size)))
                [0..<2 * batch_size] of
           Inl e \<Rightarrow> Inl e
         | Inr gts_items \<Rightarrow>
           (let gts2 = map_of gts_items;
                cider_scores = CiderD_scorer gts2 res_list;
                scores = map (\<lambda>s. cider_weight * s) cider_scores
            in case broadcast (-) (take batch_size scores) (drop batch_size scores) of
                 Inl e \<Rightarrow> Inl e
               | Inr scores2 \<Rightarrow> Inr (map (replicate (ncols gen_result)) scores2))))))"

text \<open>
  What the one call of the scorer receives, written out: the list of hypotheses, the
  sampled one of sequence \<open>i\<close> under id \<open>i\<close> and the greedy one under id
  \<open>batch_size + i\<close>, and the dictionary of references, which gives both ids the reference
  strings of sequence \<open>i\<close>.
\<close>

definition hypotheses :: "int list list \<Rightarrow> int list list \<Rightarrow> (nat \<times> string list) list" where
  "hypotheses gen_result greedy_res =
     map (\<lambda>i. (i, [array_to_str (if i < length gen_result then gen_result ! i
                                   else greedy_res ! (i - length gen_result))]))
       [0..<2 * length gen_result]"

definition references :: "nat \<Rightarrow> int list list list \<Rightarrow> (nat \<rightharpoonup> string list)" where
  "references batch_size ground_truth =
     (\<lambda>i. if i < 2 * batch_size then Some (map array_to_str (ground_truth ! (i mod batch_size)))
          else None)"

text \<open>
  A scorer that is a pure function of each hypothesis string and its own reference
  strings, as the contract of the reward describes the metric.
\<close>

definition pairwise_scorer :: "(string \<Rightarrow> string list \<Rightarrow> real) \<Rightarrow> scorer" where
  "pairwise_scorer metric gts res_list =
     map (\<lambda>(i, caption). metric (hd caption) (case gts i of None \<Rightarrow> [] | Some refs \<Rightarrow> refs)) res_list"

section \<open>The decoder: \<^verbatim>\<open>DAE.forward\<close>\<close>

text \<open>
  The recurrent network is a parameter.  \<open>net s it\<close> is one pass through the embedding,
  the two LSTM cells, the attention, dropout, the output layer and \<^verbatim>\<open>log_softmax\<close>: from
  the state \<open>s\<close> (hidden and cell vectors, the encoder's outputs, the random generator that
  dropout draws from) and the batch of previous tokens to the next state and the batch of
  log-probability rows.  \<open>multinomial s logprobs\<close> is \<^verbatim>\<open>torch.multinomial\<close> on the
  exponentiated rows: one drawn index per row, and the state with the generator advanced.
\<close>

type_synonym 's net = "'s \<Rightarrow> int list \<Rightarrow> 's \<times> real list list"
type_synonym 's sampler = "'s \<Rightarrow> real list list \<Rightarrow> 's \<times> int list"

definition max_len :: nat where
  "max_len = 18"

text \<open>
  \<^verbatim>\<open>torch.max(logprobs, 1)\<close>: the maximum of every row and its index (the first one
  among equals); a row without entries raises.
\<close>

definition row_max :: "real list \<Rightarrow> error + (real \<times> int)" where
  "row_max row =
     (case row of [] \<Rightarrow> Inl IndexError
      | x # xs \<Rightarrow> let m = fold max xs x
                  in Inr (m, int (length (takeWhile (\<lambda>y. y \<noteq> m) row))))"

definition torch_max :: "real list list \<Rightarrow> error + (real list \<times> int list)" where
  "torch_max logprobs =
     (case traverse row_max logprobs of Inl e \<Rightarrow> Inl e
      | Inr ps \<Rightarrow> Inr (map fst ps, map snd ps))"

text \<open>\<^verbatim>\<open>logprobs.gather(1, it)\<close> with one index per row.\<close>

definition gather :: "real list list \<Rightarrow> int list \<Rightarrow> error + real list" where
  "gather logprobs idx =
     (if length idx \<noteq> length logprobs then Inl ShapeError
      else traverse (\<lambda>(row, i). if 0 \<le> i \<and> i < int (length row) then Inr (row ! nat i)
                                 else Inl IndexError)
             (zip logprobs idx))"

record 's dae_state =
  dae_net :: 's
  dae_it :: "int list"
  dae_unfinished :: "bool list"
  dae_seq :: "int list list"
  dae_seqLogprobs :: "real list list"

text \<open>
  The two \<^verbatim>\<open>if\<close> statements that choose the token: first the greedy one, then the
  sampling one, each overwriting \<^verbatim>\<open>it\<close> and \<^verbatim>\<open>sampleLogprobs\<close>.  With neither flag
  set \<^verbatim>\<open>sampleLogprobs\<close> stays unbound (\<open>None\<close>) and \<^verbatim>\<open>it\<close> is the previous token.
\<close>

definition select_token ::
  "'s sampler \<Rightarrow> bool \<Rightarrow> bool \<Rightarrow> 's \<Rightarrow> real list list \<Rightarrow> int list
     \<Rightarrow> error + ('s \<times> int list \<times> real list option)" where
  "select_token multinomial sample_max sample_rl s logprobs it0 =
     (case (if sample_max
            then (case torch_max logprobs of Inl e \<Rightarrow> Inl e
                  | Inr (vals, idx) \<Rightarrow> Inr (idx, Some vals))
            else Inr (it0, None)) of
        Inl e \<Rightarrow> Inl e
      | Inr (it1, lp1) \<Rightarrow>
          if sample_rl
          then (let (s', it2) = multinomial s logprobs
                in case gather logprobs it2 of Inl e \<Rightarrow> Inl e
                   | Inr lp2 \<Rightarrow> Inr (s', it2, Some lp2))
          else Inr (s, it1, lp1))"

text \<open>\<^verbatim>\<open>t[:, timestep] = col\<close>: one entry per row, or a shape error.\<close>

definition set_column :: "'a list list \<Rightarrow> nat \<Rightarrow> 'a list \<Rightarrow> error + 'a list list" where
  "set_column t timestep col =
     (if length col = length t then Inr (map2 (\<lambda>row v. row[timestep := v]) t col)
      else Inl ShapeError)"

text \<open>\<^verbatim>\<open>it[it == word_map['<end>']] = 0\<close> on a copy of \<^verbatim>\<open>it\<close>.\<close>

definition rewrite_end :: "int \<Rightarrow> int list \<Rightarrow> int list" where
  "rewrite_end end_idx it1 = map (\<lambda>w. if w = end_idx then 0 else w) it1"

text \<open>
  \<^verbatim>\<open>unfinished = it > 0\<close> in the first pass, \<^verbatim>\<open>unfinished = unfinished * (it > 0)\<close>
  in the later ones: the elementwise conjunction.
\<close>

definition update_unfinished :: "nat \<Rightarrow> bool list \<Rightarrow> int list \<Rightarrow> error + bool list" where
  "update_unfinished timestep unfin it2 =
     (if timestep = 0 then Inr (map (\<lambda>w. w > 0) it2)
      else if length unfin = length it2 then Inr (map2 (\<and>) unfin (map (\<lambda>w. w > 0) it2))
      else Inl ShapeError)"

text \<open>\<^verbatim>\<open>it = it * unfinished.type_as(it)\<close>\<close>

definition zero_finished :: "int list \<Rightarrow> bool list \<Rightarrow> int list" where
  "zero_finished it2 unfin = map2 (\<lambda>w u. w * (if u then 1 else 0)) it2 unfin"

text \<open>
  The rest of the loop body, from the rewriting of \<^verbatim>\<open><end>\<close> to the test that ends the
  loop early.  The result says whether the loop breaks.
\<close>

definition store_token ::
  "word_map \<Rightarrow> nat \<Rightarrow> 's dae_state \<Rightarrow> int list \<Rightarrow> real list option
     \<Rightarrow> error + (bool \<times> 's dae_state)" where
  "store_token wm timestep st it1 sampleLogprobs =
     (case lookup wm ''<end>'' of Inl e \<Rightarrow> Inl e
      | Inr end_idx \<Rightarrow>
        (let it2 = rewrite_end end_idx it1
         in case update_unfinished timestep (dae_unfinished st) it2 of
              Inl e \<Rightarrow> Inl e
            | Inr unfinished' \<Rightarrow>
              (let it3 = zero_finished it2 unfinished'
               in case set_column (dae_seq st) timestep it3 of Inl e \<Rightarrow> Inl e
                  | Inr seq' \<Rightarrow>
                    (case sampleLogprobs of None \<Rightarrow> Inl NameError
                     | Some lp \<Rightarrow>
                       (case set_column (dae_seqLogprobs st) timestep lp of Inl e \<Rightarrow> Inl e
                        | Inr seqLogprobs' \<Rightarrow>
                            Inr (\<not> list_ex id unfinished',
                                 st\<lparr>dae_it := it3, dae_unfinished := unfinished',
                                    dae_seq := seq', dae_seqLogprobs := seqLogprobs'\<rparr>))))))"

text \<open>
  \<^verbatim>\<open>for timestep in range(max_len + 1)\<close>: recursion over the list of timesteps.  The
  last pass only runs the network and breaks.
\<close>

fun dae_loop ::
  "'s net \<Rightarrow> 's sampler \<Rightarrow> word_map \<Rightarrow> bool \<Rightarrow> bool \<Rightarrow> nat list \<Rightarrow> 's dae_state
     \<Rightarrow> error + 's dae_state" where
  "dae_loop net multinomial wm sample_max sample_rl [] st = Inr st"
| "dae_loop net multinomial wm sample_max sample_rl (timestep # rest) st =
     (let (s1, logprobs) = net (dae_net st) (dae_it st)
      in if timestep = max_len then Inr (st\<lparr>dae_net := s1\<rparr>)
         else case select_token multinomial sample_max sample_rl s1 logprobs (dae_it st) of
                Inl e \<Rightarrow> Inl e
              | Inr (s2, it1, sampleLogprobs) \<Rightarrow>
                (case store_token wm timestep (st\<lparr>dae_net := s2\<rparr>) it1 sampleLogprobs of
                   Inl e \<Rightarrow> Inl e
                 | Inr (stop, st') \<Rightarrow>
                     if stop then Inr st'
                     else dae_loop net multinomial wm sample_max sample_rl rest st'))"

text \<open>
  \<open>s0\<close> is the network state once the caption encoder has run on the previous captions,
  \<open>batch_size\<close> their number.
\<close>

definition DAE_forward ::
  "'s net \<Rightarrow> 's sampler \<Rightarrow> word_map \<Rightarrow> 's \<Rightarrow> nat \<Rightarrow> bool \<Rightarrow> bool
     \<Rightarrow> error + (int list list \<times> real list list)" where
  "DAE_forward net multinomial wm s0 batch_size sample_max sample_rl =
     (case lookup wm ''<start>'' of Inl e \<Rightarrow> Inl e
      | Inr start_idx \<Rightarrow>
        (let st0 = \<lparr>dae_net = s0, dae_it = replicate batch_size start_idx, dae_unfinished = [],
                    dae_seq = replicate batch_size (replicate max_len 0),
                    dae_seqLogprobs = replicate batch_size (replicate max_len 0)\<rparr>
         in case dae_loop net multinomial wm sample_max sample_rl [0..<max_len + 1] st0 of
              Inl e \<Rightarrow> Inl e
            | Inr st \<Rightarrow> Inr (dae_seq st, dae_seqLogprobs st)))"

text \<open>
  The invariant of the loop before the pass for \<open>timestep\<close>: every stored row has
  \<open>max_len\<close> entries, is still 0 from \<open>timestep\<close> on, has only 0s after a 0, and a
  sequence that is still unfinished stored a non-zero token in the pass before.
\<close>

definition dae_inv :: "nat \<Rightarrow> 's dae_state \<Rightarrow> bool" where
  "dae_inv timestep st =
     ((\<forall>b < length (dae_seq st).
         length (dae_seq st ! b) = max_len
         \<and> (\<forall>j < max_len. timestep \<le> j \<longrightarrow> dae_seq st ! b ! j = 0)
         \<and> (\<forall>i < max_len. \<forall>j < max_len. i \<le> j \<longrightarrow> dae_seq st ! b ! i = 0
                \<longrightarrow> dae_seq st ! b ! j = 0))
      \<and> (0 < timestep \<longrightarrow>
            length (dae_unfinished st) = length (dae_seq st)
            \<and> (\<forall>b < length (dae_seq st).
                  dae_unfinished st ! b \<longrightarrow> dae_seq st ! b ! (timestep - 1) \<noteq> 0)))"

section \<open>The caption encoder: \<^verbatim>\<open>CaptionEncoder.forward\<close>\<close>

text \<open>
  The embedding and the bidirectional recurrent layer are parameters.  \<open>embedding b t w\<close> is
  the vector of token \<open>w\<close> at position \<open>t\<close> of sequence \<open>b\<close> (it depends on the position
  because of dropout).  The recurrent layer is given by the cell of each direction, a
  function from the state (hidden and cell vector) and the input vector to the next state,
  by the initial state, by the projection of a state to its hidden vector and by the size of
  that vector.
\<close>

record 'h recurrent =
  cell_fw :: "'h \<Rightarrow> real list \<Rightarrow> 'h"
  cell_bw :: "'h \<Rightarrow> real list \<Rightarrow> 'h"
  initial :: 'h
  hidden_of :: "'h \<Rightarrow> real list"
  enc_hid_dim :: nat

text \<open>\<^verbatim>\<open>src_len.squeeze(1).tolist()\<close> for a tensor of shape \<open>(B, 1)\<close>.\<close>

definition squeeze_lengths :: "int list list \<Rightarrow> error + int list" where
  "squeeze_lengths src_len =
     traverse (\<lambda>row. case row of [n] \<Rightarrow> Inr n | _ \<Rightarrow> Inl ShapeError) src_len"

text \<open>
  \<^verbatim>\<open>pack_padded_sequence(embedded, src_len, batch_first=True, enforce_sorted=False)\<close>
  keeps of every sequence its first \<open>src_len\<close> steps.  It raises on an empty batch, on
  a number of lengths other than the batch size, on a length that is not positive and on
  a length beyond the padded sequence.
\<close>

definition pack_padded_sequence :: "'a list list \<Rightarrow> int list \<Rightarrow> error + 'a list list" where
  "pack_padded_sequence embedded lens =
     (if embedded = [] \<or> length lens \<noteq> length embedded then Inl RuntimeError
      else if list_ex (\<lambda>(row, n). n \<le> 0 \<or> int (length row) < n) (zip embedded lens)
           then Inl RuntimeError
      else Inr (map2 (\<lambda>row n. take (nat n) row) embedded lens))"

text \<open>One direction of the recurrent layer: the states after each step.\<close>

fun run_cell :: "('h \<Rightarrow> 'x \<Rightarrow> 'h) \<Rightarrow> 'h \<Rightarrow> 'x list \<Rightarrow> 'h list" where
  "run_cell cell h [] = []"
| "run_cell cell h (x # xs) = (let h' = cell h x in h' # run_cell cell h' xs)"

text \<open>
  The bidirectional layer on one packed sequence: per step the hidden vector of the
  forward pass followed by the one of the backward pass, and the last state of each
  direction.
\<close>

definition lstm_encoder :: "'h recurrent \<Rightarrow> real list list \<Rightarrow> real list list \<times> 'h \<times> 'h" where
  "lstm_encoder l xs =
     (let fw = run_cell (cell_fw l) (initial l) xs;
          bw = rev (run_cell (cell_bw l) (initial l) (rev xs))
      in (map2 (\<lambda>f b. hidden_of l f @ hidden_of l b) fw bw, last fw, hd bw))"

text \<open>
  \<^verbatim>\<open>pad_packed_sequence(packed_outputs, batch_first=True)\<close>: every sequence is filled
  with zero rows up to the longest sequence of the batch.
\<close>

definition longest :: "'a list list \<Rightarrow> nat" where
  "longest seqs = fold max (map length seqs) 0"

definition pad_packed_sequence :: "nat \<Rightarrow> real list list list \<Rightarrow> real list list list" where
  "pad_packed_sequence width seqs =
     map (\<lambda>rows. rows @ replicate (longest seqs - length rows) (replicate width 0)) seqs"

text \<open>\<^verbatim>\<open>((outputs.sum(2)) != 0).float()\<close>\<close>

definition row_sum_mask :: "real list list list \<Rightarrow> real list list" where
  "row_sum_mask outputs = map (map (\<lambda>row. if sum_list row \<noteq> 0 then 1 else 0)) outputs"

text \<open>
  \<open>concat_layer\<close> is the linear layer followed by \<^verbatim>\<open>tanh\<close> that pools the two final hidden
  vectors.  The result is the triple \<^verbatim>\<open>(outputs, final_hidden, prev_cap_mask)\<close>.
\<close>

definition CaptionEncoder_forward ::
  "(nat \<Rightarrow> nat \<Rightarrow> int \<Rightarrow> real list) \<Rightarrow> 'h recurrent \<Rightarrow> (real list \<Rightarrow> real list)
     \<Rightarrow> int list list \<Rightarrow> int list list
     \<Rightarrow> error + (real list list list \<times> real list list \<times> real list list)" where
  "CaptionEncoder_forward embedding l concat_layer src src_len =
     (let embedded = map (\<lambda>(b, row). map (\<lambda>(t, w). embedding b t w) (enumerate 0 row))
                       (enumerate 0 src)
      in case squeeze_lengths src_len of Inl e \<Rightarrow> Inl e
         | Inr lens \<Rightarrow>
           (case pack_padded_sequence embedded lens of Inl e \<Rightarrow> Inl e
            | Inr packed_embedded \<Rightarrow>
              (let results = map (lstm_encoder l) packed_embedded;
                   outputs = pad_packed_sequence (2 * enc_hid_dim l) (map fst results);
                   prev_cap_mask = row_sum_mask outputs;
                   final_hidden = map (\<lambda>(_, f, b). concat_layer (hidden_of l f @ hidden_of l b)) results
               in Inr (outputs, final_hidden, prev_cap_mask))))"

text \<open>The mask of the valid lengths: 1 at the positions below the length, 0 elsewhere.\<close>

definition length_mask :: "int list \<Rightarrow> nat \<Rightarrow> real list list" where
  "length_mask lens width = map (\<lambda>n. map (\<lambda>t. if int t < n then 1 else 0) [0..<width]) lens"

text \<open>
  The cell of \<^verbatim>\<open>torch.nn.LSTM\<close>, which the encoder uses, after the library's
  documentation: with the gates \<open>i\<close>, \<open>f\<close>, \<open>g\<close>, \<open>o\<close> computed from the rows of the two weight
  matrices and biases, \<open>c' = f * c + i * g\<close> and \<open>h' = o * tanh c'\<close>.
\<close>

record lstm_weights =
  w_ih :: "real list list"
  w_hh :: "real list list"
  b_ih :: "real list"
  b_hh :: "real list"

definition sigmoid :: "real \<Rightarrow> real" where
  "sigmoid x = 1 / (1 + exp (- x))"

definition dot :: "real list \<Rightarrow> real list \<Rightarrow> real" where
  "dot u v = sum_list (map2 (*) u v)"

definition lstm_cell ::
  "lstm_weights \<Rightarrow> real list \<times> real list \<Rightarrow> real list \<Rightarrow> real list \<times> real list" where
  "lstm_cell W hc x =
     (let h = fst hc; c = snd hc; n = length h;
          gates = map (\<lambda>k. dot (w_ih W ! k) x + b_ih W ! k + dot (w_hh W ! k) h + b_hh W ! k)
                    [0..<4 * n];
          ig = map sigmoid (take n gates);
          fg = map sigmoid (take n (drop n gates));
          gg = map tanh (take n (drop (2 * n) gates));
          og = map sigmoid (drop (3 * n) gates);
          c' = map2 (+) (map2 (*) fg c) (map2 (*) ig gg);
          h' = map2 (*) og (map tanh c')
      in (h', c'))"

section \<open>Beam search: the decoding loop of \<^verbatim>\<open>evaluate\<close>\<close>
















section \<open>Concrete inputs used to exercise the model\<close>

text \<open>The five-word vocabulary of the end-to-end scenario.\<close>

definition toy_vocab :: word_map where
  "toy_vocab = [(''<pad>'', 0), (''<start>'', 1), (''<end>'', 2), (''a'', 3), (''dog'', 4)]"

text \<open>
  A mocked network for a batch of one: the state counts the passes, and the
  log-probability row of pass 0, 1, 2 has its maximum at token 3, 4, 2
  (\<^verbatim>\<open>a\<close>, \<^verbatim>\<open>dog\<close>, \<^verbatim>\<open><end>\<close>), later rows at \<^verbatim>\<open><pad>\<close>.
\<close>

definition mock_net :: "nat net" where
  "mock_net s prev =
     (Suc s, [if s = 0 then [-9, -9, -9, -1, -9]
              else if s = 1 then [-9, -9, -9, -9, -1]
              else if s = 2 then [-9, -9, -1, -9, -9]
              else [-1, -9, -9, -9, -9]])"

text \<open>A sampler that always draws token 0 (used where sampling is switched off).\<close>

definition zero_sampler :: "nat sampler" where
  "zero_sampler s logprobs = (s, map (\<lambda>_. 0) logprobs)"

text \<open>
  A sampler for a batch of one that draws \<^verbatim>\<open>dog\<close> after the first pass of the network
  and \<^verbatim>\<open><end>\<close> afterwards, whatever the distribution.
\<close>

definition mock_sampler :: "nat sampler" where
  "mock_sampler s logprobs = (s, map (\<lambda>_. if s = 1 then 4 else 2) logprobs)"

text \<open>A toy metric: 1 when the hypothesis string is one of the reference strings.\<close>

definition exact_match :: "string \<Rightarrow> string list \<Rightarrow> real" where
  "exact_match hyp refs = (if hyp \<in> set refs then 1 else 0)"

text \<open>
  An encoder with hidden size 1 whose LSTM weights and biases are all zero, on embeddings
  of size 1.
\<close>

definition zero_weights :: lstm_weights where
  "zero_weights = \<lparr>w_ih = [[0], [0], [0], [0]], w_hh = [[0], [0], [0], [0]],
                    b_ih = [0, 0, 0, 0], b_hh = [0, 0, 0, 0]\<rparr>"

definition zero_lstm :: "(real list \<times> real list) recurrent" where
  "zero_lstm = \<lparr>cell_fw = lstm_cell zero_weights, cell_bw = lstm_cell zero_weights,
                 initial = ([0], [0]), hidden_of = fst, enc_hid_dim = 1\<rparr>"

definition toy_embed :: "nat \<Rightarrow> nat \<Rightarrow> int \<Rightarrow> real list" where
  "toy_embed b t w = [real_of_int w]"

text \<open>
  A recurrent layer of hidden size 1 that is not degenerate: the state is the hidden
  vector, and both cells add 1 to the input.
\<close>

definition toy_recurrent :: "real list recurrent" where
  "toy_recurrent = \<lparr>cell_fw = (\<lambda>h x. map (\<lambda>v. v + 1) x), cell_bw = (\<lambda>h x. map (\<lambda>v. v + 1) x),
                     initial = [0], hidden_of = id, enc_hid_dim = 1\<rparr>"



section \<open>Stringification: what \<^verbatim>\<open>array_to_str\<close> computes\<close>

lemma digit_char_not_space: "d < 10 \<Longrightarrow> \<not> is_space (digit_char d)"
proof -
  assume "d < 10"
  then have "d \<in> {0,1,2,3,4,5,6,7,8,9}" by auto
  then show ?thesis by (auto simp: is_space_def digit_char_def)
qed

lemma str_nat_chars: "c \<in> set (str_nat n) \<Longrightarrow> \<not> is_space c"
proof (induction n rule: str_nat.induct)
  case (1 n)
  show ?case
  proof (cases "n < 10")
    case True
    with "1.prems" show ?thesis
      by (subst (asm) str_nat.simps) (auto simp: digit_char_not_space)
  next
    case False
    with "1.prems" have "c \<in> set (str_nat (n div 10)) \<or> c = digit_char (n mod 10)"
      by (subst (asm) str_nat.simps) auto
    then show ?thesis
      using "1.IH" False by (auto simp: digit_char_not_space)
  qed
qed

lemma str_nat_nonempty: "str_nat n \<noteq> []"
  by (subst str_nat.simps) simp

lemma str_int_nonempty: "str_int i \<noteq> []"
  by (simp add: str_int_def str_nat_nonempty)

lemma str_int_chars: "c \<in> set (str_int i) \<Longrightarrow> \<not> is_space c"
  by (auto simp: str_int_def is_space_def dest: str_nat_chars split: if_splits)

lemma array_to_str_loop_eq:
  "array_to_str_loop arr out = out @ concat (map (\<lambda>w. str_int w @ '' '') (through_first_zero arr))"
  by (induction arr arbitrary: out) (auto simp: through_first_zero_def Let_def)

lemma concat_blank_join:
  "ws \<noteq> [] \<Longrightarrow> concat (map (\<lambda>w. w @ '' '') ws) = join_blank ws @ '' ''"
  by (induction ws rule: join_blank.induct) auto

lemma join_blank_chars_hd:
  "ws \<noteq> [] \<Longrightarrow> \<forall>w \<in> set ws. w \<noteq> [] \<and> (\<forall>c \<in> set w. \<not> is_space c)
   \<Longrightarrow> join_blank ws \<noteq> [] \<and> \<not> is_space (hd (join_blank ws)) \<and> \<not> is_space (last (join_blank ws))"
  by (induction ws rule: join_blank.induct) (auto simp: hd_append)

lemma dropWhile_hd_keep: "xs \<noteq> [] \<Longrightarrow> \<not> P (hd xs) \<Longrightarrow> dropWhile P xs = xs"
  by (cases xs) auto

lemma strip_trailing_blank:
  assumes "s \<noteq> []" "\<not> is_space (hd s)" "\<not> is_space (last s)"
  shows "strip (s @ '' '') = s"
proof -
  from assms obtain c cs where s: "s = c # cs" by (cases s) auto
  with assms have 1: "dropWhile is_space (s @ '' '') = s @ '' ''" by simp
  have sp: "is_space CHR '' ''" by (simp add: is_space_def)
  from assms have "rev s \<noteq> []" "hd (rev s) = last s" by (simp_all add: hd_rev)
  then have 2: "dropWhile is_space (rev s) = rev s"
    using assms(3) by (intro dropWhile_hd_keep) simp_all
  have "dropWhile is_space (rev (s @ '' '')) = rev s"
    using sp 2 by simp
  with 1 show ?thesis by (simp add: strip_def)
qed

lemma through_first_zero_nonempty: "arr \<noteq> [] \<Longrightarrow> through_first_zero arr \<noteq> []"
  by (cases arr) (auto simp: through_first_zero_def)

lemma array_to_str_eq:
  "array_to_str arr = join_blank (map str_int (through_first_zero arr))"
proof (cases "arr = []")
  case True
  then show ?thesis by (simp add: array_to_str_def through_first_zero_def strip_def)
next
  case False
  let ?ws = "map str_int (through_first_zero arr)"
  have ne: "?ws \<noteq> []" using False by (simp add: through_first_zero_nonempty)
  have ok: "\<forall>w \<in> set ?ws. w \<noteq> [] \<and> (\<forall>c \<in> set w. \<not> is_space c)"
    by (auto simp: str_int_nonempty dest: str_int_chars)
  have "array_to_str_loop arr '''' = concat (map (\<lambda>w. w @ '' '') ?ws)"
    by (simp add: array_to_str_loop_eq comp_def)
  also have "\<dots> = join_blank ?ws @ '' ''" using ne by (rule concat_blank_join)
  finally have "array_to_str arr = strip (join_blank ?ws @ '' '')"
    by (simp add: array_to_str_def)
  also have "\<dots> = join_blank ?ws"
    using join_blank_chars_hd[OF ne ok] by (intro strip_trailing_blank) auto
  finally show ?thesis .
qed

section \<open>The loss and its mask\<close>

lemma shapeD: "shape B L t \<Longrightarrow> length t = B \<and> (\<forall>b < B. length (t ! b) = L)"
  by (auto simp: shape_def list_all_length)

lemma shapeI: "length t = B \<Longrightarrow> (\<And>b. b < B \<Longrightarrow> length (t ! b) = L) \<Longrightarrow> shape B L t"
  by (auto simp: shape_def list_all_length)

lemma length_concat_shape: "shape B L t \<Longrightarrow> length (concat t) = B * L"
proof (induction t arbitrary: B)
  case Nil
  then show ?case by (simp add: shape_def)
next
  case (Cons r t)
  then obtain B' where "B = Suc B'" "shape B' L t" "length r = L"
    by (cases B) (auto simp: shape_def)
  with Cons.IH show ?case by simp
qed

lemma map2_concat:
  "list_all2 (\<lambda>x y. length x = length y) xss yss \<Longrightarrow>
   map2 f (concat xss) (concat yss) = concat (map2 (map2 f) xss yss)"
  by (induction xss yss rule: list_all2_induct) auto

lemma sum_list_nth: "sum_list (xs :: real list) = (\<Sum>i<length xs. xs ! i)"
  by (simp add: sum_list_sum_nth atLeast0LessThan)

lemma sum_list_concat_nth:
  "sum_list (concat (t :: real list list)) = (\<Sum>b<length t. \<Sum>i<length (t ! b). t ! b ! i)"
proof -
  have "sum_list (concat t) = sum_list (map sum_list t)" by (induction t) auto
  also have "\<dots> = (\<Sum>b<length t. sum_list (t ! b))"
    by (simp add: sum_list_sum_nth atLeast0LessThan)
  finally show ?thesis by (simp add: sum_list_nth)
qed

lemma sum_list_concat_shape:
  assumes "shape B L (t :: real list list)" "\<And>b i. b < B \<Longrightarrow> i < L \<Longrightarrow> t ! b ! i = f b i"
  shows "sum_list (concat t) = (\<Sum>b<B. \<Sum>i<L. f b i)"
proof -
  from assms(1) have len: "length t = B" "\<And>b. b < B \<Longrightarrow> length (t ! b) = L"
    by (auto dest!: shapeD)
  have "sum_list (concat t) = (\<Sum>b<B. \<Sum>i<length (t ! b). t ! b ! i)"
    by (simp add: sum_list_concat_nth len)
  also have "\<dots> = (\<Sum>b<B. \<Sum>i<L. f b i)"
    by (intro sum.cong refl) (simp_all add: len assms(2))
  finally show ?thesis .
qed

lemma shape_same_rows:
  "shape B L xs \<Longrightarrow> shape B L ys \<Longrightarrow> list_all2 (\<lambda>x y. length x = length y) xs ys"
  by (auto simp: list_all2_conv_all_nth dest!: shapeD)

lemma shape_map2:
  "shape B L xs \<Longrightarrow> shape B L ys \<Longrightarrow> shape B L (map2 (map2 f) xs ys)"
  by (auto intro!: shapeI dest!: shapeD)

lemma shape_map: "shape B L xs \<Longrightarrow> shape B L (map (map f) xs)"
  by (auto intro!: shapeI dest!: shapeD)

lemma shape_shift_mask: "shape B L m \<Longrightarrow> 0 < L \<Longrightarrow> shape B L (shift_mask m)"
  by (auto intro!: shapeI dest!: shapeD simp: shift_mask_def)

lemma shift_mask_nth:
  assumes "shape B L seq" "b < B" "t < L"
  shows "shift_mask (positive_mask seq) ! b ! t = shifted_mask_at seq b t"
proof -
  from assms have len: "length seq = B" "length (seq ! b) = L" by (auto dest!: shapeD)
  show ?thesis
  proof (cases t)
    case 0
    with assms len show ?thesis by (simp add: shift_mask_def positive_mask_def shifted_mask_at_def)
  next
    case (Suc t')
    with assms len have "t' < length (butlast (map (\<lambda>w. if 0 < w then 1 else 0 :: real) (seq ! b)))"
      by simp
    with Suc assms len show ?thesis
      by (simp add: shift_mask_def positive_mask_def shifted_mask_at_def nth_butlast)
  qed
qed

lemma broadcast_same: "length xs = length ys \<Longrightarrow> broadcast f xs ys = Inr (map2 f xs ys)"
  by (simp add: broadcast_def)

lemma shifted_mask_example: "shift_mask (positive_mask [[5, 7, 0, 0]]) = [[1, 1, 1, 0]]"
  by (simp add: shift_mask_def positive_mask_def)

text \<open>
  Claim C1.  For log-probabilities, a generated sequence and a broadcast advantage of one
  shape \<open>(B, L)\<close> with \<open>L \<ge> 1\<close>, \<^verbatim>\<open>RewardCriterion.forward\<close> returns
  \<open>- sum (logprob * advantage * mask) / sum mask\<close>, where the mask is 1 in column 0 and, in
  column \<open>t \<ge> 1\<close>, 1 exactly when \<open>seq[t - 1] > 0\<close>: the mask of positive tokens shifted
  one position to the right behind a leading 1.  For \<open>seq = [5, 7, 0, 0]\<close> the unshifted
  mask is \<open>[1, 1, 0, 0]\<close> and the shifted one \<open>[1, 1, 1, 0]\<close>.
\<close>

theorem reward_criterion_formula:
  assumes lp: "shape B L sample_logprobs" and sq: "shape B L seq" and rw: "shape B L reward"
    and L: "0 < L"
  shows "RewardCriterion_forward sample_logprobs seq reward =
           Inr (float_div
                  (- (\<Sum>b<B. \<Sum>t<L. sample_logprobs ! b ! t * reward ! b ! t * shifted_mask_at seq b t))
                  (\<Sum>b<B. \<Sum>t<L. shifted_mask_at seq b t))
         \<and> (\<forall>b<B. \<forall>t<L. shift_mask (positive_mask seq) ! b ! t = shifted_mask_at seq b t)
         \<and> positive_mask [[5, 7, 0, 0]] = [[1, 1, 0, 0]]
         \<and> shift_mask (positive_mask [[5, 7, 0, 0]]) = [[1, 1, 1, 0]]"
proof -
  let ?m = "shift_mask (positive_mask seq)"
  let ?nl = "map (map uminus) sample_logprobs"
  let ?lr = "map2 (map2 (*)) ?nl reward"
  let ?out = "map2 (map2 (*)) ?lr ?m"
  have m: "shape B L ?m"
    using sq L by (intro shape_shift_mask) (auto simp: positive_mask_def intro: shape_map)
  have nl: "shape B L ?nl" using lp by (rule shape_map)
  have lrs: "shape B L ?lr" using nl rw by (rule shape_map2)
  have outs: "shape B L ?out" using lrs m by (rule shape_map2)
  have flat_nl: "map uminus (view_flat sample_logprobs) = concat ?nl"
    by (simp add: view_flat_def map_concat)
  have "broadcast (*) (concat ?nl) (concat reward) = Inr (concat ?lr)"
    using length_concat_shape[OF nl] length_concat_shape[OF rw]
    by (simp add: broadcast_same map2_concat[OF shape_same_rows[OF nl rw]])
  then have b1: "broadcast (*) (map uminus (view_flat sample_logprobs)) (view_flat reward)
                   = Inr (concat ?lr)"
    by (simp add: view_flat_def map_concat)
  have b2: "broadcast (*) (concat ?lr) (concat ?m) = Inr (concat ?out)"
    using length_concat_shape[OF lrs] length_concat_shape[OF m]
    by (simp add: broadcast_same map2_concat[OF shape_same_rows[OF lrs m]])
  have fw: "RewardCriterion_forward sample_logprobs seq reward =
              Inr (float_div (sum_list (concat ?out)) (sum_list (concat ?m)))"
    using b1 b2 by (simp add: RewardCriterion_forward_def Let_def view_flat_def)
  have mnth: "\<forall>b<B. \<forall>t<L. ?m ! b ! t = shifted_mask_at seq b t"
    using sq by (simp add: shift_mask_nth)
  have den: "sum_list (concat ?m) = (\<Sum>b<B. \<Sum>t<L. shifted_mask_at seq b t)"
    using m mnth by (intro sum_list_concat_shape) auto
  have onth: "\<forall>b<B. \<forall>t<L. ?out ! b ! t
                = - (sample_logprobs ! b ! t * reward ! b ! t * shifted_mask_at seq b t)"
    using shapeD[OF lp] shapeD[OF rw] shapeD[OF m] mnth by simp
  have "sum_list (concat ?out)
          = (\<Sum>b<B. \<Sum>t<L. - (sample_logprobs ! b ! t * reward ! b ! t * shifted_mask_at seq b t))"
    using outs onth by (intro sum_list_concat_shape) auto
  then have num: "sum_list (concat ?out)
          = - (\<Sum>b<B. \<Sum>t<L. sample_logprobs ! b ! t * reward ! b ! t * shifted_mask_at seq b t)"
    by (simp add: sum_negf)
  show ?thesis
    using fw den num mnth by (simp add: shift_mask_def positive_mask_def)
qed

theorem reward_criterion_formula_witness:
  "shape 1 4 [[-1, -2, -3, -4 :: real]] \<and> shape 1 4 [[5, 7, 0, 0 :: int]]
   \<and> shape 1 4 [[2, 2, 2, 2 :: real]] \<and> (0::nat) < 4
   \<and> RewardCriterion_forward [[-1, -2, -3, -4]] [[5, 7, 0, 0]] [[2, 2, 2, 2]] = Inr (Finite 4)"
  using reward_criterion_formula [of 1 4 "[[-1, -2, -3, -4]]" "[[5, 7, 0, 0]]" "[[2, 2, 2, 2]]"]
  by (simp add: shape_def float_div_def shifted_mask_at_def eval_nat_numeral)

lemma positive_mask_nonneg: "row \<in> set (positive_mask seq) \<Longrightarrow> x \<in> set row \<Longrightarrow> 0 \<le> x"
  by (auto simp: positive_mask_def)

lemma sum_list_nonneg_real: "(\<And>x. x \<in> set xs \<Longrightarrow> 0 \<le> (x::real)) \<Longrightarrow> 0 \<le> sum_list xs"
  by (induction xs) auto

lemma shifted_row_sum: "(\<And>x. x \<in> set row \<Longrightarrow> 0 \<le> (x::real)) \<Longrightarrow> 1 \<le> sum_list (1 # butlast row)"
proof -
  assume a: "\<And>x. x \<in> set row \<Longrightarrow> 0 \<le> x"
  have "0 \<le> sum_list (butlast row)"
    by (rule sum_list_nonneg_real) (auto dest: in_set_butlastD a)
  then show ?thesis by simp
qed

lemma shift_mask_sum:
  "(\<And>row x. row \<in> set m \<Longrightarrow> x \<in> set row \<Longrightarrow> 0 \<le> x)
   \<Longrightarrow> real (length m) \<le> sum_list (concat (shift_mask m))"
proof (induction m)
  case Nil
  then show ?case by (simp add: shift_mask_def)
next
  case (Cons row m)
  have 1: "1 \<le> sum_list (1 # butlast row)"
    using Cons.prems by (intro shifted_row_sum) auto
  have 2: "real (length m) \<le> sum_list (concat (shift_mask m))"
    using Cons.prems by (intro Cons.IH) auto
  from 1 2 show ?case by (simp add: shift_mask_def)
qed

text \<open>
  Claim C9.  For a batch of at least one sequence, whatever the tokens (all zero
  included), every row of the shifted mask starts with 1, so the sum of the mask is at
  least the batch size and positive, and the final division never has a zero divisor.
\<close>

theorem reward_mask_sum_positive:
  assumes "seq \<noteq> []"
  shows "list_all (\<lambda>row. row \<noteq> [] \<and> row ! 0 = 1) (shift_mask (positive_mask seq))
         \<and> real (length seq) \<le> sum_list (view_flat (shift_mask (positive_mask seq)))
         \<and> 0 < sum_list (view_flat (shift_mask (positive_mask seq)))
         \<and> RewardCriterion_forward sample_logprobs seq reward \<noteq> Inr NotANumber"
proof -
  let ?m = "view_flat (shift_mask (positive_mask seq))"
  have first: "list_all (\<lambda>row. row \<noteq> [] \<and> row ! 0 = 1) (shift_mask (positive_mask seq))"
    by (simp add: shift_mask_def list_all_iff)
  have "real (length (positive_mask seq)) \<le> sum_list (concat (shift_mask (positive_mask seq)))"
    by (rule shift_mask_sum) (rule positive_mask_nonneg)
  then have ge: "real (length seq) \<le> sum_list ?m"
    by (simp add: view_flat_def positive_mask_def)
  from assms have "0 < real (length seq)" by simp
  with ge have pos: "0 < sum_list ?m" by linarith
  then have "float_div x (sum_list ?m) \<noteq> NotANumber" for x
    by (simp add: float_div_def)
  then have "RewardCriterion_forward sample_logprobs seq reward \<noteq> Inr NotANumber"
    by (auto simp: RewardCriterion_forward_def Let_def split: sum.splits)
  with first ge pos show ?thesis by simp
qed

theorem reward_mask_sum_positive_witness:
  "[[0, 0, 0 :: int]] \<noteq> []
   \<and> shift_mask (positive_mask [[0, 0, 0]]) = [[1, 0, 0]]
   \<and> RewardCriterion_forward [[-1, -2, -3]] [[0, 0, 0]] [[2, 2, 2]] = Inr (Finite 2)
   \<and> RewardCriterion_forward [[-1, -2, -3]] [[0, 0, 0]] [[2, 2, 2]] \<noteq> Inr NotANumber"
  using reward_mask_sum_positive [of "[[0, 0, 0]]" "[[-1, -2, -3]]" "[[2, 2, 2]]"]
  by (simp add: RewardCriterion_forward_def shift_mask_def positive_mask_def view_flat_def
      broadcast_def float_div_def)

section \<open>Reference captions and scoring strings\<close>

lemma traverse_total: "traverse (\<lambda>x. Inr (g x)) xs = Inr (map g xs)"
  by (induction xs) auto

lemma traverse_cong_Inr:
  "(\<And>x. x \<in> set xs \<Longrightarrow> f x = Inr (g x)) \<Longrightarrow> traverse f xs = Inr (map g xs)"
  by (induction xs) auto

lemma strip_start_pad_eq:
  "map_of wm ''<start>'' = Some s \<Longrightarrow> map_of wm ''<pad>'' = Some p \<Longrightarrow>
   strip_start_pad wm c = Inr (filter (\<lambda>w. w \<noteq> s \<and> w \<noteq> p) c)"
  by (simp add: strip_start_pad_def lookup_def)

lemma end_to_zero_eq:
  "map_of wm ''<end>'' = Some e \<Longrightarrow>
   end_to_zero wm c = Inr (map (\<lambda>w. if w = e then 0 else w) c)"
  by (simp add: end_to_zero_def lookup_def)

lemma preprocess_gd_loop_eq:
  assumes "map_of wm ''<start>'' = Some s" "map_of wm ''<pad>'' = Some p"
    "map_of wm ''<end>'' = Some e"
  shows "preprocess_gd_loop wm allcaps acc =
           Inr (acc @ map (map (\<lambda>c. map (\<lambda>w. if w = e then 0 else w)
                                        (filter (\<lambda>w. w \<noteq> s \<and> w \<noteq> p) c))) allcaps)"
proof (induction allcaps arbitrary: acc)
  case Nil
  show ?case by simp
next
  case (Cons img_caps rest)
  have 1: "traverse (strip_start_pad wm) img_caps
             = Inr (map (filter (\<lambda>w. w \<noteq> s \<and> w \<noteq> p)) img_caps)"
    by (rule traverse_cong_Inr) (simp add: strip_start_pad_eq assms)
  have 2: "traverse (end_to_zero wm) cs = Inr (map (map (\<lambda>w. if w = e then 0 else w)) cs)" for cs
    by (rule traverse_cong_Inr) (simp add: end_to_zero_eq assms)
  show ?case by (simp add: 1 2 Cons.IH)
qed

text \<open>
  What the code computes: \<^verbatim>\<open>array_to_str\<close> gives the decimal ids, joined by single
  blanks, up to and including the first 0 (all of them when there is no 0), and with
  \<^verbatim>\<open><start>\<close>, \<^verbatim>\<open><pad>\<close> and \<^verbatim>\<open><end>\<close> in the vocabulary \<^verbatim>\<open>preprocess_gd\<close> removes the
  \<^verbatim>\<open><start>\<close> and \<^verbatim>\<open><pad>\<close> ids from every reference caption and rewrites \<^verbatim>\<open><end>\<close>
  to 0.
\<close>

lemma scoring_strings_through_first_zero:
  assumes "map_of wm ''<start>'' = Some s" "map_of wm ''<pad>'' = Some p"
    "map_of wm ''<end>'' = Some e"
  shows "array_to_str arr = join_blank (map str_int (through_first_zero arr))
         \<and> preprocess_gd allcaps wm =
             Inr (map (map (\<lambda>c. map (\<lambda>w. if w = e then 0 else w)
                                    (filter (\<lambda>w. w \<noteq> s \<and> w \<noteq> p) c))) allcaps)"
  using preprocess_gd_loop_eq [OF assms, of allcaps "[]"]
  by (simp add: array_to_str_eq preprocess_gd_def)

text \<open>
  Claim C4.  The claim lets the scoring string hold the ids strictly before the first 0,
  and the comment in \<^verbatim>\<open>preprocess_gd\<close> says of the 0 written for \<^verbatim>\<open><end>\<close> that it
  "will get removed later in array_to_str".  The loop of \<^verbatim>\<open>array_to_str\<close> appends the id
  before it tests it, so the first 0 stays in the string: for \<open>[3, 4, 0, 0]\<close> the string
  is \<open>3 4 0\<close>, where the ids before the first 0 give \<open>3 4\<close>; and the reference caption
  \<open>[1, 3, 4, 2, 0, 0]\<close> of the five-word vocabulary becomes \<open>[3, 4, 0]\<close> and then the
  string \<open>3 4 0\<close>.
\<close>

theorem array_to_str_keeps_first_zero:
  "array_to_str [3, 4, 0, 0] = ''3 4 0''
   \<and> join_blank (map str_int (before_first_zero [3, 4, 0, 0])) = ''3 4''
   \<and> array_to_str [3, 4, 0, 0] \<noteq> join_blank (map str_int (before_first_zero [3, 4, 0, 0]))
   \<and> preprocess_gd [[[1, 3, 4, 2, 0, 0]]] toy_vocab = Inr [[[3, 4, 0]]]
   \<and> array_to_str [3, 4, 0] = ''3 4 0''
   \<and> join_blank (map str_int (before_first_zero [3, 4, 0])) = ''3 4''"
proof -
  have a: "array_to_str [3, 4, 0, 0] = ''3 4 0''"
    by (simp add: array_to_str_def strip_def is_space_def str_int_def str_nat.simps digit_char_def)
  have b: "join_blank (map str_int (before_first_zero [3, 4, 0, 0])) = ''3 4''"
    by (simp add: str_int_def str_nat.simps digit_char_def before_first_zero_def)
  have c: "preprocess_gd [[[1, 3, 4, 2, 0, 0]]] toy_vocab = Inr [[[3, 4, 0]]]"
    by (simp add: preprocess_gd_def strip_start_pad_def end_to_zero_def lookup_def toy_vocab_def)
  have d: "array_to_str [3, 4, 0] = ''3 4 0''"
    by (simp add: array_to_str_def strip_def is_space_def str_int_def str_nat.simps digit_char_def)
  have e: "join_blank (map str_int (before_first_zero [3, 4, 0])) = ''3 4''"
    by (simp add: str_int_def str_nat.simps digit_char_def before_first_zero_def)
  from a b c d e show ?thesis by simp
qed

section \<open>The decoder loop\<close>

lemma set_column_Inr:
  "set_column t k col = Inr t' \<Longrightarrow>
   length col = length t \<and> length t' = length t \<and> (\<forall>b < length t. t' ! b = (t ! b)[k := col ! b])"
  by (auto simp: set_column_def split: if_splits)

lemma store_token_steps:
  assumes "store_token wm timestep st it1 lp = Inr (stop, st')"
  shows "\<exists>e u seq' v sl.
           lookup wm ''<end>'' = Inr e
         \<and> update_unfinished timestep (dae_unfinished st) (rewrite_end e it1) = Inr u
         \<and> set_column (dae_seq st) timestep (zero_finished (rewrite_end e it1) u) = Inr seq'
         \<and> lp = Some v
         \<and> set_column (dae_seqLogprobs st) timestep v = Inr sl
         \<and> stop = (\<not> list_ex id u)
         \<and> st' = st\<lparr>dae_it := zero_finished (rewrite_end e it1) u,
                      dae_unfinished := u, dae_seq := seq', dae_seqLogprobs := sl\<rparr>"
  using assms
  by (auto simp: store_token_def Let_def split: sum.splits option.splits)

lemma update_unfinished_Inr:
  assumes "update_unfinished timestep unfin (rewrite_end e it1) = Inr u"
  shows "length u = length it1 \<and> (0 < timestep \<longrightarrow> length unfin = length it1)
         \<and> (\<forall>b < length it1.
               u ! b = ((timestep = 0 \<or> unfin ! b) \<and> it1 ! b \<noteq> e \<and> 0 < it1 ! b))"
proof (cases "timestep = 0")
  case True
  with assms have "u = map (\<lambda>w. 0 < w) (rewrite_end e it1)"
    by (simp add: update_unfinished_def)
  with True show ?thesis by (simp add: rewrite_end_def)
next
  case False
  with assms have "length unfin = length it1"
    "u = map2 (\<and>) unfin (map (\<lambda>w. 0 < w) (rewrite_end e it1))"
    by (auto simp: update_unfinished_def rewrite_end_def split: if_splits)
  with False show ?thesis by (simp add: rewrite_end_def)
qed

lemma store_token_Inr:
  assumes "store_token wm timestep st it1 lp = Inr (stop, st')"
  shows "\<exists>e. lookup wm ''<end>'' = Inr e
     \<and> length (dae_unfinished st') = length it1
     \<and> length it1 = length (dae_seq st)
     \<and> length (dae_seq st') = length (dae_seq st)
     \<and> (0 < timestep \<longrightarrow> length (dae_unfinished st) = length it1)
     \<and> (\<forall>b < length it1.
           dae_unfinished st' ! b =
             ((timestep = 0 \<or> dae_unfinished st ! b) \<and> it1 ! b \<noteq> e \<and> 0 < it1 ! b))
     \<and> (\<forall>b < length it1.
           dae_seq st' ! b = (dae_seq st ! b)
             [timestep := (if dae_unfinished st' ! b then it1 ! b else 0)])
     \<and> stop = (\<forall>b < length it1. \<not> dae_unfinished st' ! b)"
proof -
  let ?it3 = "\<lambda>e u. zero_finished (rewrite_end e it1) u"
  from store_token_steps[OF assms] obtain e u seq' v sl where
    e: "lookup wm ''<end>'' = Inr e"
    and u: "update_unfinished timestep (dae_unfinished st) (rewrite_end e it1) = Inr u"
    and seq': "set_column (dae_seq st) timestep (?it3 e u) = Inr seq'"
    and stop: "stop = (\<not> list_ex id u)"
    and st': "st' = st\<lparr>dae_it := ?it3 e u, dae_unfinished := u, dae_seq := seq',
                         dae_seqLogprobs := sl\<rparr>"
    by blast
  from update_unfinished_Inr[OF u] have lu: "length u = length it1"
    and l0: "0 < timestep \<longrightarrow> length (dae_unfinished st) = length it1"
    and un: "\<forall>b < length it1.
               u ! b = ((timestep = 0 \<or> dae_unfinished st ! b) \<and> it1 ! b \<noteq> e \<and> 0 < it1 ! b)"
    by blast+
  have l3: "length (?it3 e u) = length it1"
    by (simp add: lu zero_finished_def rewrite_end_def)
  have i3: "?it3 e u ! b = (if u ! b then it1 ! b else 0)" if "b < length it1" for b
    using that lu un by (auto simp: zero_finished_def rewrite_end_def)

  from set_column_Inr[OF seq'] l3 have sq:
    "length it1 = length (dae_seq st)" "length seq' = length (dae_seq st)"
    "\<forall>b < length it1. seq' ! b = (dae_seq st ! b)[timestep := ?it3 e u ! b]"
    by auto
  have sq3: "\<forall>b < length it1. seq' ! b = (dae_seq st ! b)[timestep := (if u ! b then it1 ! b else 0)]"
    using sq(3) i3 by simp
  have stp: "stop = (\<forall>b < length it1. \<not> u ! b)"
    using stop lu by (auto simp: list_ex_iff in_set_conv_nth)
  have fields: "dae_unfinished st' = u" "dae_seq st' = seq'" by (simp_all add: st')
  show ?thesis
    unfolding fields using e lu l0 un sq(1,2) sq3 stp by blast
qed

lemma dae_inv_net [simp]: "dae_inv t (st\<lparr>dae_net := s\<rparr>) = dae_inv t st"
  by (simp add: dae_inv_def)

lemma dae_inv_step:
  assumes inv: "dae_inv t st" and t: "t < max_len"
    and store: "store_token wm t st it1 lp = Inr (stop, st')"
  shows "dae_inv (Suc t) st'"
proof -
  from store_token_Inr[OF store] obtain e where
    lu: "length (dae_unfinished st') = length it1"
    and li: "length it1 = length (dae_seq st)"
    and ls: "length (dae_seq st') = length (dae_seq st)"
    and un: "\<forall>b < length it1. dae_unfinished st' ! b =
               ((t = 0 \<or> dae_unfinished st ! b) \<and> it1 ! b \<noteq> e \<and> 0 < it1 ! b)"
    and sq: "\<forall>b < length it1. dae_seq st' ! b =
               (dae_seq st ! b)[t := (if dae_unfinished st' ! b then it1 ! b else 0)]"
    by blast
  have row: "length (dae_seq st' ! b) = max_len
         \<and> (\<forall>j < max_len. Suc t \<le> j \<longrightarrow> dae_seq st' ! b ! j = 0)
         \<and> (\<forall>i < max_len. \<forall>j < max_len. i \<le> j \<longrightarrow> dae_seq st' ! b ! i = 0
                \<longrightarrow> dae_seq st' ! b ! j = 0)
         \<and> (dae_unfinished st' ! b \<longrightarrow> dae_seq st' ! b ! t \<noteq> 0)"
    if b: "b < length (dae_seq st)" for b
  proof -
    let ?row = "dae_seq st ! b"
    let ?v = "if dae_unfinished st' ! b then it1 ! b else 0"
    from inv b have len: "length ?row = max_len"
      and tail: "\<forall>j < max_len. t \<le> j \<longrightarrow> ?row ! j = 0"
      and stay: "\<forall>i < max_len. \<forall>j < max_len. i \<le> j \<longrightarrow> ?row ! i = 0 \<longrightarrow> ?row ! j = 0"
      and live: "0 < t \<longrightarrow> dae_unfinished st ! b \<longrightarrow> ?row ! (t - 1) \<noteq> 0"
      by (auto simp: dae_inv_def)
    from sq b li have row': "dae_seq st' ! b = ?row[t := ?v]" by simp
    from un b li have u': "dae_unfinished st' ! b =
        ((t = 0 \<or> dae_unfinished st ! b) \<and> it1 ! b \<noteq> e \<and> 0 < it1 ! b)" by simp
    have nth: "?row[t := ?v] ! j = (if j = t then ?v else ?row ! j)" if "j < max_len" for j
      using that len t by (simp add: nth_list_update)
    have 1: "length (?row[t := ?v]) = max_len" using len by simp
    have 2: "\<forall>j < max_len. Suc t \<le> j \<longrightarrow> ?row[t := ?v] ! j = 0"
      using tail by (simp add: nth)
    have 4: "dae_unfinished st' ! b \<longrightarrow> ?row[t := ?v] ! t \<noteq> 0"
      using u' nth[OF t] by auto
    have 3: "?row[t := ?v] ! j = 0"
      if ij: "i < max_len" "j < max_len" "i \<le> j" and z: "?row[t := ?v] ! i = 0" for i j
    proof -
      consider "j < t" | "j = t" "i < t" | "j = t" "i = t" | "t < j"
        using ij by linarith
      then show ?thesis
      proof cases
        case 1
        with ij z have "?row ! i = 0" by (simp add: nth)
        with stay ij have "?row ! j = 0" by blast
        with 1 ij show ?thesis by (simp add: nth)
      next
        case 2
        with ij z have zi: "?row ! i = 0" by (simp add: nth)
        from 2 have tpos: "0 < t" "t - 1 < max_len" "i \<le> t - 1" using t by auto
        with stay ij zi have "?row ! (t - 1) = 0" by blast
        with live tpos have "\<not> dae_unfinished st ! b" by blast
        with u' tpos have "\<not> dae_unfinished st' ! b" by simp
        with 2 ij len show ?thesis by simp
      next
        case 3
        with z ij show ?thesis by simp
      next
        case 4
        with tail ij have "?row ! j = 0" by simp
        with 4 ij show ?thesis by (simp add: nth)
      qed
    qed
    from 1 2 3 4 show ?thesis unfolding row' by blast
  qed
  show ?thesis
    unfolding dae_inv_def using row lu li ls by simp
qed

lemma dae_inv_init:
  "dae_inv 0 \<lparr>dae_net = s0, dae_it = i0, dae_unfinished = [],
              dae_seq = replicate B (replicate max_len 0), dae_seqLogprobs = l0\<rparr>"
  by (simp add: dae_inv_def)

lemma dae_loop_inv:
  "dae_inv t st \<Longrightarrow> ts = [t..<n] \<Longrightarrow> n = Suc max_len \<Longrightarrow>
   dae_loop net multinomial wm sample_max sample_rl ts st = Inr st' \<Longrightarrow>
   length (dae_seq st') = length (dae_seq st) \<and> (\<exists>t'. dae_inv t' st')"
proof (induction ts arbitrary: t st)
  case Nil
  then show ?case by auto
next
  case (Cons a ts)
  from Cons.prems(2) have "[t..<n] = a # ts" by simp
  then have a: "a = t" and tn: "t < n" and ts: "ts = [Suc t..<n]"
    by (auto simp: upt_eq_Cons_conv)
  from tn Cons.prems(3) have tl: "t < Suc max_len" by simp
  note loop = Cons.prems(4)
  obtain s1 logprobs where net: "net (dae_net st) (dae_it st) = (s1, logprobs)"
    by (cases "net (dae_net st) (dae_it st)")
  show ?case
  proof (cases "t = max_len")
    case True
    with loop a net have "st' = st\<lparr>dae_net := s1\<rparr>" by simp
    with Cons.prems(1) show ?thesis by auto
  next
    case False
    with tl have t: "t < max_len" by simp
    from loop a net False obtain s2 it1 lp where
      sel: "select_token multinomial sample_max sample_rl s1 logprobs (dae_it st) = Inr (s2, it1, lp)"
      by (auto split: sum.splits)
    from loop a net False sel obtain stop st'' where
      store: "store_token wm t (st\<lparr>dae_net := s2\<rparr>) it1 lp = Inr (stop, st'')"
      by (auto split: sum.splits)
    have inv'': "dae_inv (Suc t) st''"
      using dae_inv_step[OF _ t store] Cons.prems(1) by simp
    from store_token_Inr[OF store] have len'': "length (dae_seq st'') = length (dae_seq st)"
      by auto
    show ?thesis
    proof (cases stop)
      case True
      with loop a net False sel store have "st' = st''" by simp
      with inv'' len'' show ?thesis by auto
    next
      case nostop: False
      with loop a net False sel store have
        "dae_loop net multinomial wm sample_max sample_rl ts st'' = Inr st'" by simp
      from Cons.IH[OF inv'' ts Cons.prems(3) this] len'' show ?thesis by simp
    qed
  qed
qed

lemma DAE_forward_inv:
  assumes "DAE_forward net multinomial wm s0 B sample_max sample_rl = Inr (sq, lps)"
  shows "length sq = B \<and> (\<forall>b<B. length (sq ! b) = max_len
           \<and> (\<forall>i < max_len. \<forall>j < max_len. i \<le> j \<longrightarrow> sq ! b ! i = 0 \<longrightarrow> sq ! b ! j = 0))"
proof -
  from assms obtain start_idx where "lookup wm ''<start>'' = Inr start_idx"
    by (auto simp: DAE_forward_def split: sum.splits)
  let ?st0 = "\<lparr>dae_net = s0, dae_it = replicate B start_idx, dae_unfinished = [],
               dae_seq = replicate B (replicate max_len 0),
               dae_seqLogprobs = replicate B (replicate max_len 0)\<rparr>"
  from assms \<open>lookup wm ''<start>'' = Inr start_idx\<close> obtain st where
    loop: "dae_loop net multinomial wm sample_max sample_rl [0..<max_len + 1] ?st0 = Inr st"
    and sq: "sq = dae_seq st"
    by (auto simp: DAE_forward_def Let_def split: sum.splits)
  from dae_loop_inv[OF dae_inv_init _ _ loop, of "Suc max_len"]
  have "length (dae_seq st) = B" and "\<exists>t'. dae_inv t' st" by auto
  then show ?thesis unfolding sq by (auto simp: dae_inv_def)
qed

lemma mock_forward:
  "DAE_forward mock_net zero_sampler toy_vocab 0 1 True False
     = Inr ([[3, 4, 0, 0, 0, 0, 0, 0, 0, 0, 0, 0, 0, 0, 0, 0, 0, 0]],
            [[-1, -1, -1, 0, 0, 0, 0, 0, 0, 0, 0, 0, 0, 0, 0, 0, 0, 0]])"
  by (simp add: DAE_forward_def lookup_def toy_vocab_def max_len_def mock_net_def
      select_token_def torch_max_def row_max_def store_token_def rewrite_end_def
      update_unfinished_def zero_finished_def set_column_def Let_def eval_nat_numeral)


text \<open>
  Claim C3.  In every sequence tensor that \<^verbatim>\<open>DAE.forward\<close> returns, in any decoding
  mode, each of the \<open>B\<close> rows has \<open>max_len\<close> entries and after a position holding 0 all
  later positions hold 0.  The mechanism, for one pass of the loop body that stores the
  chosen tokens: a chosen \<^verbatim>\<open><end>\<close> is stored as 0; the new unfinished flag is the old one
  (from the second pass on) in conjunction with "chosen token, \<^verbatim>\<open><end>\<close> rewritten to 0,
  is positive", so it never turns from false to true; and a sequence whose flag is false
  stores 0.
\<close>

theorem dae_forward_zeros_stay:
  fixes net :: "'s net"
  assumes "DAE_forward net multinomial wm s0 B sample_max sample_rl = Inr (seq, seqLogprobs)"
  shows "length seq = B
     \<and> (\<forall>b<B. length (seq ! b) = max_len
            \<and> (\<forall>i<max_len. \<forall>j<max_len. i \<le> j \<longrightarrow> seq ! b ! i = 0 \<longrightarrow> seq ! b ! j = 0))
     \<and> (\<forall>t (st :: 's dae_state) it1 lp stop st' e b.
           store_token wm t st it1 lp = Inr (stop, st') \<and> lookup wm ''<end>'' = Inr e
           \<and> b < length it1 \<and> t < length (dae_seq st ! b) \<longrightarrow>
             (it1 ! b = e \<longrightarrow> dae_seq st' ! b ! t = 0)
           \<and> dae_unfinished st' ! b
               = ((t = 0 \<or> dae_unfinished st ! b) \<and> 0 < rewrite_end e it1 ! b)
           \<and> (0 < t \<longrightarrow> dae_unfinished st' ! b \<longrightarrow> dae_unfinished st ! b)
           \<and> (\<not> dae_unfinished st' ! b \<longrightarrow> dae_seq st' ! b ! t = 0))"
proof -
  have step: "(it1 ! b = e \<longrightarrow> dae_seq st' ! b ! t = 0)
           \<and> dae_unfinished st' ! b
               = ((t = 0 \<or> dae_unfinished st ! b) \<and> 0 < rewrite_end e it1 ! b)
           \<and> (0 < t \<longrightarrow> dae_unfinished st' ! b \<longrightarrow> dae_unfinished st ! b)
           \<and> (\<not> dae_unfinished st' ! b \<longrightarrow> dae_seq st' ! b ! t = 0)"
    if store: "store_token wm t st it1 lp = Inr (stop, st')" and e: "lookup wm ''<end>'' = Inr e"
      and b: "b < length it1" and t: "t < length (dae_seq st ! b)"
    for t and st :: "'s dae_state" and it1 lp stop st' e b
  proof -
    from store_token_Inr[OF store] e b have
      un: "dae_unfinished st' ! b = ((t = 0 \<or> dae_unfinished st ! b) \<and> it1 ! b \<noteq> e \<and> 0 < it1 ! b)"
      and sq: "dae_seq st' ! b
                 = (dae_seq st ! b)[t := (if dae_unfinished st' ! b then it1 ! b else 0)]"
      by auto
    from sq t have val: "dae_seq st' ! b ! t = (if dae_unfinished st' ! b then it1 ! b else 0)"
      by simp
    have re: "rewrite_end e it1 ! b = (if it1 ! b = e then 0 else it1 ! b)"
      using b by (simp add: rewrite_end_def)
    show ?thesis using un val re by auto
  qed
  from DAE_forward_inv[OF assms] have main: "length seq = B"
    "\<forall>b<B. length (seq ! b) = max_len
        \<and> (\<forall>i<max_len. \<forall>j<max_len. i \<le> j \<longrightarrow> seq ! b ! i = 0 \<longrightarrow> seq ! b ! j = 0)"
    by simp_all
  have steps: "\<forall>t (st :: 's dae_state) it1 lp stop st' e b.
           store_token wm t st it1 lp = Inr (stop, st') \<and> lookup wm ''<end>'' = Inr e
           \<and> b < length it1 \<and> t < length (dae_seq st ! b) \<longrightarrow>
             (it1 ! b = e \<longrightarrow> dae_seq st' ! b ! t = 0)
           \<and> dae_unfinished st' ! b
               = ((t = 0 \<or> dae_unfinished st ! b) \<and> 0 < rewrite_end e it1 ! b)
           \<and> (0 < t \<longrightarrow> dae_unfinished st' ! b \<longrightarrow> dae_unfinished st ! b)
           \<and> (\<not> dae_unfinished st' ! b \<longrightarrow> dae_seq st' ! b ! t = 0)"
    by (intro allI impI, elim conjE) (rule step; assumption)
  show ?thesis by (rule conjI[OF main(1) conjI[OF main(2) steps]])
qed

theorem dae_forward_zeros_stay_witness:
  "DAE_forward mock_net zero_sampler toy_vocab 0 1 True False
     = Inr ([[3, 4, 0, 0, 0, 0, 0, 0, 0, 0, 0, 0, 0, 0, 0, 0, 0, 0]],
            [[-1, -1, -1, 0, 0, 0, 0, 0, 0, 0, 0, 0, 0, 0, 0, 0, 0, 0]])
   \<and> length [[3, 4, 0, 0, 0, 0, 0, 0, 0, 0, 0, 0, 0, 0, 0, 0, 0, 0 :: int]] = 1
   \<and> length ([[3, 4, 0, 0, 0, 0, 0, 0, 0, 0, 0, 0, 0, 0, 0, 0, 0, 0 :: int]] ! 0) = max_len
   \<and> [[3, 4, 0, 0, 0, 0, 0, 0, 0, 0, 0, 0, 0, 0, 0, 0, 0, 0 :: int]] ! 0 ! 2 = 0
   \<and> [[3, 4, 0, 0, 0, 0, 0, 0, 0, 0, 0, 0, 0, 0, 0, 0, 0, 0 :: int]] ! 0 ! 17 = 0"
proof -
  let ?seq = "[[3, 4, 0, 0, 0, 0, 0, 0, 0, 0, 0, 0, 0, 0, 0, 0, 0, 0 :: int]]"
  note inst = dae_forward_zeros_stay [OF mock_forward]
  from inst have len: "length ?seq = 1" by (rule conjunct1)
  from inst have rows: "\<forall>b<1. length (?seq ! b) = max_len
        \<and> (\<forall>i<max_len. \<forall>j<max_len. i \<le> j \<longrightarrow> ?seq ! b ! i = 0 \<longrightarrow> ?seq ! b ! j = 0)"
    by (rule conjunct1[OF conjunct2])
  then have row0: "length (?seq ! 0) = max_len"
    and stay: "\<forall>i<max_len. \<forall>j<max_len. i \<le> j \<longrightarrow> ?seq ! 0 ! i = 0 \<longrightarrow> ?seq ! 0 ! j = 0"
    by simp_all
  have z2: "?seq ! 0 ! 2 = 0" by simp
  have "(2::nat) < max_len" "(17::nat) < max_len" "(2::nat) \<le> 17" by (simp_all add: max_len_def)
  with stay z2 have z17: "?seq ! 0 ! 17 = 0" by blast
  from mock_forward len row0 z2 z17 show ?thesis by (intro conjI)
qed

text \<open>
  Claim C8.  With the vocabulary \<open>{<pad>: 0, <start>: 1, <end>: 2, a: 3, dog: 4}\<close>, a batch of
  one and a network whose chosen tokens in the first three passes are 3, 4 and 2,
  \<^verbatim>\<open>DAE.forward\<close> stores \<open>[3, 4, 0, 0, ...]\<close> (the \<^verbatim>\<open><end>\<close> token as 0, the loop left
  after the third pass) and \<^verbatim>\<open>array_to_str\<close> of that row is \<open>3 4 0\<close>.
\<close>

theorem end_to_end_scenario:
  assumes n0: "net s0 [1] = (s1, lp0)"
    and c0: "select_token multinomial sample_max sample_rl s1 lp0 [1] = Inr (s1', [3], Some [v0])"
    and n1: "net s1' [3] = (s2, lp1)"
    and c1: "select_token multinomial sample_max sample_rl s2 lp1 [3] = Inr (s2', [4], Some [v1])"
    and n2: "net s2' [4] = (s3, lp2)"
    and c2: "select_token multinomial sample_max sample_rl s3 lp2 [4] = Inr (s3', [2], Some [v2])"
  shows "DAE_forward net multinomial toy_vocab s0 1 sample_max sample_rl
           = Inr ([[3, 4, 0, 0, 0, 0, 0, 0, 0, 0, 0, 0, 0, 0, 0, 0, 0, 0]],
                  [[v0, v1, v2, 0, 0, 0, 0, 0, 0, 0, 0, 0, 0, 0, 0, 0, 0, 0]])
         \<and> array_to_str [3, 4, 0, 0, 0, 0, 0, 0, 0, 0, 0, 0, 0, 0, 0, 0, 0, 0] = ''3 4 0''"
proof -
  have str: "array_to_str [3, 4, 0, 0, 0, 0, 0, 0, 0, 0, 0, 0, 0, 0, 0, 0, 0, 0] = ''3 4 0''"
    by (simp add: array_to_str_def strip_def is_space_def str_int_def str_nat.simps digit_char_def)
  have fw: "DAE_forward net multinomial toy_vocab s0 1 sample_max sample_rl
           = Inr ([[3, 4, 0, 0, 0, 0, 0, 0, 0, 0, 0, 0, 0, 0, 0, 0, 0, 0]],
                  [[v0, v1, v2, 0, 0, 0, 0, 0, 0, 0, 0, 0, 0, 0, 0, 0, 0, 0]])"
    using assms
    by (simp add: DAE_forward_def lookup_def toy_vocab_def max_len_def
        store_token_def rewrite_end_def update_unfinished_def zero_finished_def
        set_column_def Let_def eval_nat_numeral)
  from fw str show ?thesis by simp
qed

lemma mock_select:
  "select_token zero_sampler True False (Suc s) [row] prev =
     (case row_max row of Inl e \<Rightarrow> Inl e | Inr (m, i) \<Rightarrow> Inr (Suc s, [i], Some [m]))"
  by (simp add: select_token_def torch_max_def split: sum.splits)

theorem end_to_end_scenario_witness:
  "mock_net 0 [1] = (1, [[-9, -9, -9, -1, -9]])
   \<and> select_token zero_sampler True False 1 [[-9, -9, -9, -1, -9]] [1] = Inr (1, [3], Some [-1])
   \<and> mock_net 1 [3] = (2, [[-9, -9, -9, -9, -1]])
   \<and> select_token zero_sampler True False 2 [[-9, -9, -9, -9, -1]] [3] = Inr (2, [4], Some [-1])
   \<and> mock_net 2 [4] = (3, [[-9, -9, -1, -9, -9]])
   \<and> select_token zero_sampler True False 3 [[-9, -9, -1, -9, -9]] [4] = Inr (3, [2], Some [-1])
   \<and> DAE_forward mock_net zero_sampler toy_vocab 0 1 True False
        = Inr ([[3, 4, 0, 0, 0, 0, 0, 0, 0, 0, 0, 0, 0, 0, 0, 0, 0, 0]],
               [[-1, -1, -1, 0, 0, 0, 0, 0, 0, 0, 0, 0, 0, 0, 0, 0, 0, 0]])
   \<and> array_to_str [3, 4, 0, 0, 0, 0, 0, 0, 0, 0, 0, 0, 0, 0, 0, 0, 0, 0] = ''3 4 0''"
proof -
  have n0: "mock_net 0 [1] = (1, [[-9, -9, -9, -1, -9]])" by (simp add: mock_net_def)
  have n1: "mock_net 1 [3] = (2, [[-9, -9, -9, -9, -1]])" by (simp add: mock_net_def)
  have n2: "mock_net 2 [4] = (3, [[-9, -9, -1, -9, -9]])" by (simp add: mock_net_def)
  have c0: "select_token zero_sampler True False 1 [[-9, -9, -9, -1, -9]] [1] = Inr (1, [3], Some [-1])"
    by (simp add: select_token_def torch_max_def row_max_def)
  have c1: "select_token zero_sampler True False 2 [[-9, -9, -9, -9, -1]] [3] = Inr (2, [4], Some [-1])"
    by (simp add: select_token_def torch_max_def row_max_def)
  have c2: "select_token zero_sampler True False 3 [[-9, -9, -1, -9, -9]] [4] = Inr (3, [2], Some [-1])"
    by (simp add: select_token_def torch_max_def row_max_def)
  from end_to_end_scenario [OF n0 c0 n1 c1 n2 c2] n0 n1 n2 c0 c1 c2 show ?thesis by simp
qed

lemma traverse_Inr_nth:
  "traverse f xs = Inr ys \<Longrightarrow> length ys = length xs \<and> (\<forall>i < length xs. f (xs ! i) = Inr (ys ! i))"
proof (induction xs arbitrary: ys)
  case Nil
  then show ?case by simp
next
  case (Cons x xs)
  then obtain y ys' where "f x = Inr y" "traverse f xs = Inr ys'" "ys = y # ys'"
    by (auto split: sum.splits)
  with Cons.IH[of ys'] show ?case by (auto simp: nth_Cons split: nat.splits)
qed

lemma traverse_all_Inr:
  "(\<And>x. x \<in> set xs \<Longrightarrow> \<exists>y. f x = Inr y) \<Longrightarrow> \<exists>ys. traverse f xs = Inr ys"
proof (induction xs)
  case Nil
  then show ?case by simp
next
  case (Cons x xs)
  then obtain y ys where "f x = Inr y" "traverse f xs = Inr ys" by (meson list.set_intros)
  then show ?case by simp
qed

lemma row_max_nonempty: "row \<noteq> [] \<Longrightarrow> \<exists>p. row_max row = Inr p"
  by (cases row) (simp_all add: row_max_def Let_def)

lemma gather_rows_nonempty:
  assumes "gather logprobs idx = Inr v"
  shows "\<forall>row \<in> set logprobs. row \<noteq> []"
proof -
  from assms have len: "length idx = length logprobs"
    and tr: "traverse (\<lambda>(row, i). if 0 \<le> i \<and> i < int (length row) then Inr (row ! nat i)
                                     else Inl IndexError) (zip logprobs idx) = Inr v"
    by (auto simp: gather_def split: if_splits)
  show ?thesis
  proof
    fix row assume "row \<in> set logprobs"
    then obtain b where b: "b < length logprobs" "row = logprobs ! b"
      by (auto simp: in_set_conv_nth)
    from b len have zb: "b < length (zip logprobs idx)" "zip logprobs idx ! b = (row, idx ! b)"
      by simp_all
    from traverse_Inr_nth[OF tr] zb(1)
    have "(case zip logprobs idx ! b of
             (row, i) \<Rightarrow> if 0 \<le> i \<and> i < int (length row) then Inr (row ! nat i)
                         else Inl IndexError) = Inr (v ! b)"
      by blast
    then have "(if 0 \<le> idx ! b \<and> idx ! b < int (length row) then Inr (row ! nat (idx ! b))
           else Inl IndexError) = Inr (v ! b)"
      unfolding zb(2) by simp
    then have "0 \<le> idx ! b \<and> idx ! b < int (length row)" by (auto split: if_splits)
    then show "row \<noteq> []" by auto
  qed
qed

lemma gather_torch_max:
  "gather logprobs idx = Inr v \<Longrightarrow> \<exists>p. torch_max logprobs = Inr p"
proof -
  assume "gather logprobs idx = Inr v"
  then have "\<forall>row \<in> set logprobs. row \<noteq> []" by (rule gather_rows_nonempty)
  then have "\<exists>ps. traverse row_max logprobs = Inr ps"
    by (intro traverse_all_Inr row_max_nonempty) simp
  then show ?thesis by (auto simp: torch_max_def)
qed

lemma select_token_both_flags:
  "(select_token multinomial True True s logprobs it0 = Inr x)
   = (select_token multinomial False True s logprobs it0 = Inr x)"
proof (cases "multinomial s logprobs")
  case (Pair s' it2)
  show ?thesis
  proof (cases "gather logprobs it2")
    case (Inl e)
    with Pair show ?thesis
      by (auto simp: select_token_def split: sum.splits)
  next
    case (Inr lp2)
    from gather_torch_max[OF Inr] obtain vals idx where "torch_max logprobs = Inr (vals, idx)"
      by force
    with Pair Inr show ?thesis by (simp add: select_token_def)
  qed
qed

lemma dae_loop_both_flags:
  "(dae_loop net multinomial wm True True ts st = Inr r)
   = (dae_loop net multinomial wm False True ts st = Inr r)"
proof (induction ts arbitrary: st)
  case Nil
  show ?case by simp
next
  case (Cons t ts)
  obtain s1 logprobs where net: "net (dae_net st) (dae_it st) = (s1, logprobs)"
    by (cases "net (dae_net st) (dae_it st)")
  show ?case
  proof (cases "t = max_len")
    case True
    with net show ?thesis by simp
  next
    case False
    show ?thesis
    proof (cases "select_token multinomial False True s1 logprobs (dae_it st)")
      case (Inl e)
      then have "\<exists>e'. select_token multinomial True True s1 logprobs (dae_it st) = Inl e'"
        using select_token_both_flags[of multinomial s1 logprobs "dae_it st"]
        by (cases "select_token multinomial True True s1 logprobs (dae_it st)") auto
      with Inl net False show ?thesis by auto
    next
      case (Inr x)
      then have tt: "select_token multinomial True True s1 logprobs (dae_it st) = Inr x"
        by (simp add: select_token_both_flags)
      obtain s2 it1 lp where x: "x = (s2, it1, lp)" by (cases x)
      show ?thesis
      proof (cases "store_token wm t (st\<lparr>dae_net := s2\<rparr>) it1 lp")
        case (Inl e)
        with Inr tt x net False show ?thesis by simp
      next
        case store: (Inr y)
        obtain stop st' where y: "y = (stop, st')" by (cases y)
        from Inr tt x net False store y Cons.IH[of st'] show ?thesis by simp
      qed
    qed
  qed
qed

text \<open>
  Claim C10.  With both \<^verbatim>\<open>sample_max\<close> and \<^verbatim>\<open>sample_rl\<close> set, the sampling branch runs
  after the greedy one and overwrites its token and log-probability in every pass: for the
  same network and the same draws, the call returns a pair of tensors exactly when the call
  with only \<^verbatim>\<open>sample_rl\<close> set returns it.
\<close>

theorem both_flags_is_sampling:
  "(DAE_forward net multinomial wm s0 batch_size True True = Inr r)
   = (DAE_forward net multinomial wm s0 batch_size False True = Inr r)"
proof (cases "lookup wm ''<start>''")
  case (Inl e)
  then show ?thesis by (simp add: DAE_forward_def)
next
  case (Inr start_idx)
  let ?st0 = "\<lparr>dae_net = s0, dae_it = replicate batch_size start_idx, dae_unfinished = [],
               dae_seq = replicate batch_size (replicate max_len 0),
               dae_seqLogprobs = replicate batch_size (replicate max_len 0)\<rparr>"
  let ?tt = "dae_loop net multinomial wm True True [0..<max_len + 1] ?st0"
  let ?ft = "dae_loop net multinomial wm False True [0..<max_len + 1] ?st0"
  have eq: "(?tt = Inr st) = (?ft = Inr st)" for st by (rule dae_loop_both_flags)
  show ?thesis
  proof (cases ?ft)
    case ft: (Inl e)
    then have "\<exists>e'. ?tt = Inl e'" using eq by (cases ?tt) auto
    with ft Inr show ?thesis by (auto simp: DAE_forward_def Let_def)
  next
    case ft: (Inr st)
    with eq have "?tt = Inr st" by simp
    with ft Inr show ?thesis by (simp add: DAE_forward_def Let_def)
  qed
qed

lemma mock_sampled_forward:
  "DAE_forward mock_net mock_sampler toy_vocab 0 1 False True
     = Inr ([[4, 0, 0, 0, 0, 0, 0, 0, 0, 0, 0, 0, 0, 0, 0, 0, 0, 0]],
            [[-9, -9, 0, 0, 0, 0, 0, 0, 0, 0, 0, 0, 0, 0, 0, 0, 0, 0]])"
  by (simp add: DAE_forward_def lookup_def toy_vocab_def max_len_def mock_net_def
      mock_sampler_def select_token_def gather_def store_token_def rewrite_end_def
      update_unfinished_def zero_finished_def set_column_def Let_def eval_nat_numeral)

theorem both_flags_is_sampling_witness:
  "DAE_forward mock_net mock_sampler toy_vocab 0 1 True True
     = Inr ([[4, 0, 0, 0, 0, 0, 0, 0, 0, 0, 0, 0, 0, 0, 0, 0, 0, 0]],
            [[-9, -9, 0, 0, 0, 0, 0, 0, 0, 0, 0, 0, 0, 0, 0, 0, 0, 0]])
   \<and> DAE_forward mock_net mock_sampler toy_vocab 0 1 False True
     = Inr ([[4, 0, 0, 0, 0, 0, 0, 0, 0, 0, 0, 0, 0, 0, 0, 0, 0, 0]],
            [[-9, -9, 0, 0, 0, 0, 0, 0, 0, 0, 0, 0, 0, 0, 0, 0, 0, 0]])"
  using both_flags_is_sampling [of mock_net mock_sampler toy_vocab 0 1] mock_sampled_forward
  by simp

section \<open>The self-critical reward\<close>

lemma fill_res_append:
  "fill_res off rows (xs @ ys) res =
     (case fill_res off rows xs res of Inl e \<Rightarrow> Inl e | Inr r \<Rightarrow> fill_res off rows ys r)"
  by (induction xs arbitrary: res) auto

lemma fill_res_upt:
  "n \<le> length rows \<Longrightarrow>
   fill_res off rows [0..<n] res =
     Inr (\<lambda>k. if off \<le> k \<and> k < off + n then Some [array_to_str (rows ! (k - off))] else res k)"
proof (induction n)
  case 0
  show ?case by (auto simp: fun_eq_iff)
next
  case (Suc n)
  then have "fill_res off rows [0..<Suc n] res =
      Inr ((\<lambda>k. if off \<le> k \<and> k < off + n then Some [array_to_str (rows ! (k - off))] else res k)
             (off + n \<mapsto> [array_to_str (rows ! n)]))"
    by (simp add: fill_res_append)
  also have "((\<lambda>k. if off \<le> k \<and> k < off + n then Some [array_to_str (rows ! (k - off))] else res k)
             (off + n \<mapsto> [array_to_str (rows ! n)]))
       = (\<lambda>k. if off \<le> k \<and> k < off + Suc n then Some [array_to_str (rows ! (k - off))] else res k)"
    by (rule ext) (auto simp: less_Suc_eq)
  finally show ?case .
qed

lemma fill_gts_append:
  "fill_gts gt (xs @ ys) gts = fill_gts gt ys (fill_gts gt xs gts)"
  by (induction xs arbitrary: gts) auto

lemma fill_gts_upt:
  "fill_gts gt [0..<n] gts =
     (\<lambda>k. if k < n then Some (map array_to_str (gt ! k)) else gts k)"
proof (induction n)
  case 0
  show ?case by simp
next
  case (Suc n)
  show ?case by (rule ext) (simp add: fill_gts_append Suc less_Suc_eq)
qed

lemma traverse_total_Inr:
  "(\<And>x. x \<in> set xs \<Longrightarrow> f x = Inr (g x)) \<Longrightarrow> traverse f xs = Inr (map g xs)"
  by (induction xs) auto

lemma map_of_upt_items:
  "map_of (map (\<lambda>i. (i, f i)) [0..<n]) = (\<lambda>i. if i < n then Some (f i) else None)"
proof (rule ext)
  fix i
  show "map_of (map (\<lambda>i. (i, f i)) [0..<n]) i = (if i < n then Some (f i) else None)"
    by (induction n) (auto simp: map_add_def less_Suc_eq)
qed

lemma ncols_shape: "shape B L t \<Longrightarrow> 0 < B \<Longrightarrow> ncols t = L"
  by (cases t) (auto simp: ncols_def shape_def)

lemma reward_call:
  assumes B: "length gen_result = B" and gr: "B \<le> length greedy_res"
    and gt: "B \<le> length ground_truth"
  shows "get_self_critical_reward scorer gen_result greedy_res ground_truth w =
     (let scores = map (\<lambda>s. w * s) (scorer (references B ground_truth) (hypotheses gen_result greedy_res))
      in case broadcast (-) (take B scores) (drop B scores) of
           Inl e \<Rightarrow> Inl e
         | Inr scores2 \<Rightarrow> Inr (map (replicate (ncols gen_result)) scores2))"
proof -
  let ?res1 = "\<lambda>k. if 0 \<le> k \<and> k < 0 + B then Some [array_to_str (gen_result ! (k - 0))]
                   else Map.empty k"
  let ?res = "\<lambda>k. if B \<le> k \<and> k < B + B then Some [array_to_str (greedy_res ! (k - B))]
                  else ?res1 k"
  let ?gts = "\<lambda>k. if k < length ground_truth then Some (map array_to_str (ground_truth ! k))
                  else Map.empty k"
  have r1: "fill_res 0 gen_result [0..<B] Map.empty = Inr ?res1"
    using B by (intro fill_res_upt) simp
  have r2: "fill_res B greedy_res [0..<B] ?res1 = Inr ?res"
    using gr by (intro fill_res_upt)
  have g: "fill_gts ground_truth [0..<length ground_truth] Map.empty = ?gts"
    by (rule fill_gts_upt)
  have t1: "traverse (\<lambda>i. map_sum id (Pair i) (dict_get ?res i)) [0..<2 * B]
              = Inr (hypotheses gen_result greedy_res)"
    unfolding hypotheses_def B
    by (rule traverse_total_Inr) (auto simp: dict_get_def)
  have t2: "traverse (\<lambda>i. map_sum id (Pair i) (dict_get ?gts (i mod B))) [0..<2 * B]
              = Inr (map (\<lambda>i. (i, map array_to_str (ground_truth ! (i mod B)))) [0..<2 * B])"
  proof (rule traverse_total_Inr)
    fix i assume "i \<in> set [0..<2 * B]"
    then have "0 < B" by (cases B) auto
    then have "i mod B < length ground_truth" using gt
      by (meson less_le_trans mod_less_divisor)
    then show "map_sum id (Pair i) (dict_get ?gts (i mod B))
                 = Inr (i, map array_to_str (ground_truth ! (i mod B)))"
      by (simp add: dict_get_def)
  qed
  have m: "map_of (map (\<lambda>i. (i, map array_to_str (ground_truth ! (i mod B)))) [0..<2 * B])
             = references B ground_truth"
    by (simp add: map_of_upt_items references_def)
  show ?thesis
    unfolding get_self_critical_reward_def Let_def B
    by (simp only: r1 r2 g t1 t2 m sum.case)
qed

lemma broadcast_same_length: "length xs = length ys \<Longrightarrow> broadcast f xs ys = Inr (map2 f xs ys)"
  by (simp add: broadcast_def)

lemma hypotheses_nth:
  assumes "length gen_result = B" "i < B"
  shows "hypotheses gen_result greedy_res ! i = (i, [array_to_str (gen_result ! i)])"
    and "hypotheses gen_result greedy_res ! (B + i) = (B + i, [array_to_str (greedy_res ! i)])"
  using assms by (simp_all add: hypotheses_def)

lemma references_pair:
  assumes "i < B"
  shows "references B ground_truth i = Some (map array_to_str (ground_truth ! i))"
    and "references B ground_truth (B + i) = Some (map array_to_str (ground_truth ! i))"
  using assms by (simp_all add: references_def)

text \<open>
  Claim C2.  For a sampled batch of shape \<open>(B, L)\<close>, a greedy batch and reference sets for
  the \<open>B\<close> sequences, and a scorer that returns one score per hypothesis,
  \<^verbatim>\<open>get_self_critical_reward\<close> returns a tensor of shape \<open>(B, L)\<close> whose row \<open>i\<close> holds in
  every column the weighted score of hypothesis \<open>i\<close> minus that of hypothesis \<open>B + i\<close>, both
  taken from one call of the scorer on the \<open>2 * B\<close> hypotheses (the sampled strings, then
  the greedy ones), where the ids \<open>i\<close> and \<open>B + i\<close> both carry the reference strings of
  sequence \<open>i\<close>.  For a scorer that is a metric of the hypothesis and its own references
  this is \<open>metric (sampled i) (refs i) - metric (greedy i) (refs i)\<close>, times the weight
  (1 by default).
\<close>

theorem self_critical_reward_pairing:
  assumes gen: "shape B L gen_result" and gr: "B \<le> length greedy_res"
    and gt: "B \<le> length ground_truth"
    and sc: "length (scorer (references B ground_truth) (hypotheses gen_result greedy_res)) = 2 * B"
  shows "\<exists>rewards.
           get_self_critical_reward scorer gen_result greedy_res ground_truth w = Inr rewards
         \<and> shape B L rewards
         \<and> (\<forall>i<B. \<forall>t<L.
               rewards ! i ! t =
                 w * scorer (references B ground_truth) (hypotheses gen_result greedy_res) ! i
                 - w * scorer (references B ground_truth) (hypotheses gen_result greedy_res) ! (B + i))
         \<and> (\<forall>i<B.
               hypotheses gen_result greedy_res ! i = (i, [array_to_str (gen_result ! i)])
             \<and> hypotheses gen_result greedy_res ! (B + i) = (B + i, [array_to_str (greedy_res ! i)])
             \<and> references B ground_truth i = Some (map array_to_str (ground_truth ! i))
             \<and> references B ground_truth (B + i) = Some (map array_to_str (ground_truth ! i)))
         \<and> (\<forall>metric. scorer = pairwise_scorer metric \<longrightarrow>
               (\<forall>i<B. \<forall>t<L.
                  rewards ! i ! t =
                    w * metric (array_to_str (gen_result ! i)) (map array_to_str (ground_truth ! i))
                    - w * metric (array_to_str (greedy_res ! i)) (map array_to_str (ground_truth ! i))))"
proof -
  let ?S = "scorer (references B ground_truth) (hypotheses gen_result greedy_res)"
  let ?scores = "map (\<lambda>s. w * s) ?S"
  let ?d = "map2 (-) (take B ?scores) (drop B ?scores)"
  let ?rewards = "map (replicate (ncols gen_result)) ?d"
  from gen have B: "length gen_result = B" by (simp add: shape_def)
  have ld: "length ?d = B" using sc by simp
  have "broadcast (-) (take B ?scores) (drop B ?scores) = Inr ?d"
    using sc by (intro broadcast_same_length) simp
  then have call: "get_self_critical_reward scorer gen_result greedy_res ground_truth w = Inr ?rewards"
    by (simp add: reward_call[OF B gr gt] Let_def)
  have dn: "?d ! i = w * ?S ! i - w * ?S ! (B + i)" if "i < B" for i
    using that sc by simp
  have cols: "ncols gen_result = L" if "i < B" for i
    using gen that by (intro ncols_shape) auto
  have sh: "shape B L ?rewards"
    unfolding shape_def list_all_length using ld cols by simp
  have val: "\<forall>i<B. \<forall>t<L. ?rewards ! i ! t = w * ?S ! i - w * ?S ! (B + i)"
    using ld cols dn by simp
  have pair: "\<forall>i<B.
               hypotheses gen_result greedy_res ! i = (i, [array_to_str (gen_result ! i)])
             \<and> hypotheses gen_result greedy_res ! (B + i) = (B + i, [array_to_str (greedy_res ! i)])
             \<and> references B ground_truth i = Some (map array_to_str (ground_truth ! i))
             \<and> references B ground_truth (B + i) = Some (map array_to_str (ground_truth ! i))"
    by (simp add: hypotheses_nth[OF B] references_pair)
  have pw: "\<forall>i<B. \<forall>t<L.
                  ?rewards ! i ! t =
                    w * metric (array_to_str (gen_result ! i)) (map array_to_str (ground_truth ! i))
                    - w * metric (array_to_str (greedy_res ! i)) (map array_to_str (ground_truth ! i))"
    if scorer: "scorer = pairwise_scorer metric" for metric
  proof (intro allI impI)
    fix i t assume i: "i < B" and t: "t < L"
    have lh: "length (hypotheses gen_result greedy_res) = 2 * B"
      by (simp add: hypotheses_def B)
    have s1: "?S ! i = metric (array_to_str (gen_result ! i)) (map array_to_str (ground_truth ! i))"
      using i lh by (simp add: scorer pairwise_scorer_def hypotheses_nth[OF B] references_pair)
    have s2: "?S ! (B + i)
                = metric (array_to_str (greedy_res ! i)) (map array_to_str (ground_truth ! i))"
      using i lh by (simp add: scorer pairwise_scorer_def hypotheses_nth[OF B] references_pair)
    from val i t have "?rewards ! i ! t = w * ?S ! i - w * ?S ! (B + i)" by blast
    then show "?rewards ! i ! t =
                    w * metric (array_to_str (gen_result ! i)) (map array_to_str (ground_truth ! i))
                    - w * metric (array_to_str (greedy_res ! i)) (map array_to_str (ground_truth ! i))"
      by (simp only: s1 s2)
  qed
  from call sh val pair pw show ?thesis by blast
qed

lemma toy_reward:
  "get_self_critical_reward (pairwise_scorer exact_match)
     [[3, 4, 0], [4, 0, 0]] [[3, 0, 0], [4, 0, 0]] [[[3, 4, 0]], [[4, 0]]] 1
   = Inr [[1, 1, 1], [0, 0, 0]]"
  by code_simp

theorem self_critical_reward_pairing_witness:
  "shape 2 3 [[3, 4, 0], [4, 0, 0 :: int]]
   \<and> 2 \<le> length [[3, 0, 0], [4, 0, 0 :: int]]
   \<and> 2 \<le> length [[[3, 4, 0]], [[4, 0 :: int]]]
   \<and> length (pairwise_scorer exact_match (references 2 [[[3, 4, 0]], [[4, 0]]])
               (hypotheses [[3, 4, 0], [4, 0, 0]] [[3, 0, 0], [4, 0, 0]])) = 2 * 2
   \<and> get_self_critical_reward (pairwise_scorer exact_match)
        [[3, 4, 0], [4, 0, 0]] [[3, 0, 0], [4, 0, 0]] [[[3, 4, 0]], [[4, 0]]] 1
      = Inr [[1, 1, 1], [0, 0, 0]]
   \<and> shape 2 3 [[1, 1, 1], [0, 0, 0 :: real]]"
proof -
  have h1: "shape 2 3 [[3, 4, 0], [4, 0, 0 :: int]]" by (simp add: shape_def)
  have h2: "2 \<le> length [[3, 0, 0], [4, 0, 0 :: int]]" by simp
  have h3: "2 \<le> length [[[3, 4, 0]], [[4, 0 :: int]]]" by simp
  have h4: "length (pairwise_scorer exact_match (references 2 [[[3, 4, 0]], [[4, 0]]])
               (hypotheses [[3, 4, 0], [4, 0, 0]] [[3, 0, 0], [4, 0, 0]])) = 2 * 2"
    by (simp add: pairwise_scorer_def hypotheses_def)
  from self_critical_reward_pairing
         [of 2 3 "[[3, 4, 0], [4, 0, 0]]" "[[3, 0, 0], [4, 0, 0]]" "[[[3, 4, 0]], [[4, 0]]]"
             "pairwise_scorer exact_match" 1, OF h1 h2 h3 h4]
  obtain rewards where
    "get_self_critical_reward (pairwise_scorer exact_match)
        [[3, 4, 0], [4, 0, 0]] [[3, 0, 0], [4, 0, 0]] [[[3, 4, 0]], [[4, 0]]] 1 = Inr rewards"
    and "shape 2 3 rewards"
    by blast
  with toy_reward have h5: "shape 2 3 [[1, 1, 1], [0, 0, 0 :: real]]" by simp
  from h1 h2 h3 h4 toy_reward h5 show ?thesis by (intro conjI)
qed

section \<open>The mask of the caption encoder\<close>

lemma squeeze_lengths_Inr:
  assumes "squeeze_lengths src_len = Inr lens"
  shows "length lens = length src_len \<and> (\<forall>b < length src_len. src_len ! b = [lens ! b])"
proof -
  from traverse_Inr_nth[OF assms[unfolded squeeze_lengths_def]]
  have len: "length lens = length src_len"
    and each: "\<forall>b < length src_len.
                 (case src_len ! b of [n] \<Rightarrow> Inr n | _ \<Rightarrow> Inl ShapeError) = Inr (lens ! b)"
    by auto
  have single: "r = [m]"
    if "(case r of [n] \<Rightarrow> Inr n | _ \<Rightarrow> Inl ShapeError) = Inr m" for r :: "int list" and m
    using that by (cases r; cases "tl r") auto
  have "src_len ! b = [lens ! b]" if "b < length src_len" for b
    using each that by (intro single) blast
  with len show ?thesis by simp
qed

lemma pack_padded_sequence_Inr:
  assumes "pack_padded_sequence embedded lens = Inr packed"
  shows "embedded \<noteq> [] \<and> length lens = length embedded \<and> length packed = length embedded
         \<and> (\<forall>b < length embedded. 0 < lens ! b \<and> lens ! b \<le> int (length (embedded ! b))
                \<and> packed ! b = take (nat (lens ! b)) (embedded ! b))"
proof -
  from assms have ne: "embedded \<noteq> []" and len: "length lens = length embedded"
    and ok: "\<not> list_ex (\<lambda>(row, n). n \<le> 0 \<or> int (length row) < n) (zip embedded lens)"
    and packed: "packed = map2 (\<lambda>row n. take (nat n) row) embedded lens"
    by (auto simp: pack_padded_sequence_def split: if_splits)
  have "0 < lens ! b \<and> lens ! b \<le> int (length (embedded ! b))" if "b < length embedded" for b
  proof -
    from that len have "(embedded ! b, lens ! b) \<in> set (zip embedded lens)"
      by (metis in_set_zip fst_conv snd_conv)
    with ok show ?thesis by (auto simp: list_ex_iff)
  qed
  with ne len packed show ?thesis by simp
qed

lemma length_run_cell: "length (run_cell cell h xs) = length xs"
  by (induction xs arbitrary: h) (simp_all add: Let_def)

lemma length_lstm_encoder: "length (fst (lstm_encoder l xs)) = length xs"
  by (simp add: lstm_encoder_def Let_def length_run_cell)

lemma fold_max_Max: "fold max xs (a::nat) = Max (set (a # xs))"
  by (rule Max.set_eq_fold[symmetric])

lemma longest_ge: "s \<in> set seqs \<Longrightarrow> length s \<le> longest seqs"
  unfolding longest_def fold_max_Max by (intro Max_ge) auto

lemma longest_attained: "seqs \<noteq> [] \<Longrightarrow> \<exists>s \<in> set seqs. length s = longest seqs"
proof -
  assume ne: "seqs \<noteq> []"
  have "Max (set (0 # map length seqs)) \<in> set (0 # map length seqs)"
    by (intro Max_in) auto
  then have "longest seqs = 0 \<or> longest seqs \<in> length ` set seqs"
    unfolding longest_def fold_max_Max by auto
  then show ?thesis
  proof
    assume z: "longest seqs = 0"
    from ne obtain s where s: "s \<in> set seqs" by (cases seqs) auto
    with longest_ge[OF s] z show ?thesis by auto
  next
    assume "longest seqs \<in> length ` set seqs"
    then show ?thesis by auto
  qed
qed

lemma pad_packed_sequence_nth:
  assumes "b < length seqs"
  shows "length (pad_packed_sequence w seqs ! b) = longest seqs"
    and "t < length (seqs ! b) \<Longrightarrow> pad_packed_sequence w seqs ! b ! t = seqs ! b ! t"
    and "length (seqs ! b) \<le> t \<Longrightarrow> t < longest seqs
           \<Longrightarrow> pad_packed_sequence w seqs ! b ! t = replicate w 0"
proof -
  from assms have "seqs ! b \<in> set seqs" by simp
  then have le: "length (seqs ! b) \<le> longest seqs" by (rule longest_ge)
  from assms have eq: "pad_packed_sequence w seqs ! b
      = seqs ! b @ replicate (longest seqs - length (seqs ! b)) (replicate w 0)"
    by (simp add: pad_packed_sequence_def)
  show "length (pad_packed_sequence w seqs ! b) = longest seqs" using le by (simp add: eq)
  show "t < length (seqs ! b) \<Longrightarrow> pad_packed_sequence w seqs ! b ! t = seqs ! b ! t"
    by (simp add: eq nth_append)
  show "length (seqs ! b) \<le> t \<Longrightarrow> t < longest seqs
           \<Longrightarrow> pad_packed_sequence w seqs ! b ! t = replicate w 0"
    by (simp add: eq nth_append)
qed

lemma sum_list_zero_row: "sum_list (replicate w (0::real)) = 0"
  by (induction w) auto

lemma length_mask_nth:
  "b < length lens \<Longrightarrow> t < T \<Longrightarrow> length_mask lens T ! b ! t = (if int t < lens ! b then 1 else 0)"
  by (simp add: length_mask_def)

lemma shape_length_mask: "shape (length lens) T (length_mask lens T)"
  by (simp add: shape_def length_mask_def list_all_iff)

lemma shape_eq_iff:
  assumes "shape B T xs" "shape B T ys"
  shows "(xs = ys) = (\<forall>b<B. \<forall>t<T. xs ! b ! t = ys ! b ! t)"
proof -
  from assms have len: "length xs = B" "length ys = B"
    "\<forall>b<B. length (xs ! b) = T" "\<forall>b<B. length (ys ! b) = T"
    by (auto simp: shape_def list_all_length)
  have "(xs = ys) = (\<forall>b<B. xs ! b = ys ! b)"
    using len by (auto simp: list_eq_iff_nth_eq)
  also have "\<dots> = (\<forall>b<B. \<forall>t<T. xs ! b ! t = ys ! b ! t)"
    using len by (auto simp: list_eq_iff_nth_eq)
  finally show ?thesis .
qed

lemma encoder_mask_facts:
  assumes "CaptionEncoder_forward embedding l concat_layer src src_len
             = Inr (outputs, final_hidden, prev_cap_mask)"
  shows "\<exists>lens T.
           squeeze_lengths src_len = Inr lens \<and> length lens = length src \<and> src \<noteq> []
         \<and> (\<forall>b<length src. 0 < lens ! b \<and> nat (lens ! b) \<le> T)
         \<and> (\<exists>b<length src. nat (lens ! b) = T)
         \<and> shape (length src) T prev_cap_mask
         \<and> (\<forall>b<length src. \<forall>t<T.
               prev_cap_mask ! b ! t
                 = (if int t < lens ! b \<and> sum_list (outputs ! b ! t) \<noteq> 0 then 1 else 0))"
proof -
  let ?emb = "map (\<lambda>(b, row). map (\<lambda>(t, w). embedding b t w) (enumerate 0 row)) (enumerate 0 src)"
  from assms obtain lens where lens: "squeeze_lengths src_len = Inr lens"
    by (auto simp: CaptionEncoder_forward_def Let_def split: sum.splits)
  from assms lens obtain packed where packed: "pack_padded_sequence ?emb lens = Inr packed"
    by (auto simp: CaptionEncoder_forward_def Let_def split: sum.splits)
  let ?O = "map fst (map (lstm_encoder l) packed)"
  let ?T = "longest ?O"
  from assms lens packed have out: "outputs = pad_packed_sequence (2 * enc_hid_dim l) ?O"
    and mask: "prev_cap_mask = row_sum_mask outputs"
    by (auto simp: CaptionEncoder_forward_def Let_def)
  let ?B = "length src"
  have lemb: "length ?emb = ?B" by simp
  from pack_padded_sequence_Inr[OF packed] lemb have ne: "src \<noteq> []"
    and ll: "length lens = ?B" and lp: "length packed = ?B"
    and each: "\<forall>b < ?B. 0 < lens ! b \<and> lens ! b \<le> int (length (?emb ! b))
                \<and> packed ! b = take (nat (lens ! b)) (?emb ! b)"
    by auto
  have lO: "length ?O = ?B" by (simp add: lp)
  have lOb: "length (?O ! b) = nat (lens ! b)" if "b < ?B" for b
  proof -
    from that lp have "?O ! b = fst (lstm_encoder l (packed ! b))" by simp
    then have "length (?O ! b) = length (packed ! b)" by (simp add: length_lstm_encoder)
    also from each that have "\<dots> = nat (lens ! b)" by auto
    finally show ?thesis .
  qed
  have pos: "0 < lens ! b" if "b < ?B" for b using each that by blast
  have le: "nat (lens ! b) \<le> ?T" if "b < ?B" for b
  proof -
    from that lO have "?O ! b \<in> set ?O" by (metis nth_mem)
    from longest_ge[OF this] lOb[OF that] show ?thesis by simp
  qed
  have att: "\<exists>b<?B. nat (lens ! b) = ?T"
  proof -
    from ne lO have "?O \<noteq> []" by auto
    from longest_attained[OF this] obtain s where "s \<in> set ?O" "length s = ?T" by blast
    then obtain b where "b < length ?O" "?O ! b = s" by (auto simp: in_set_conv_nth)
    with lO lOb \<open>length s = ?T\<close> show ?thesis by auto
  qed
  have lout: "length outputs = ?B" by (simp add: out pad_packed_sequence_def lp)
  have lrow: "length (outputs ! b) = ?T" if "b < ?B" for b
    using that lO by (simp add: out pad_packed_sequence_nth(1))
  have sh: "shape ?B ?T prev_cap_mask"
    unfolding shape_def list_all_length using lout lrow by (simp add: mask row_sum_mask_def)
  have val: "prev_cap_mask ! b ! t
               = (if int t < lens ! b \<and> sum_list (outputs ! b ! t) \<noteq> 0 then 1 else 0)"
    if b: "b < ?B" and t: "t < ?T" for b t
  proof -
    have m: "prev_cap_mask ! b ! t = (if sum_list (outputs ! b ! t) \<noteq> 0 then 1 else 0)"
      using b t lout lrow by (simp add: mask row_sum_mask_def)
    show ?thesis
    proof (cases "int t < lens ! b")
      case True
      with m show ?thesis by simp
    next
      case False
      with lOb[OF b] have "length (?O ! b) \<le> t" by simp
      from pad_packed_sequence_nth(3)[OF _ this t, of "2 * enc_hid_dim l"] b lO
      have "outputs ! b ! t = replicate (2 * enc_hid_dim l) 0" by (simp add: out)
      with m False show ?thesis by (simp add: sum_list_zero_row)
    qed
  qed
  from lens ll ne pos le att sh val show ?thesis by blast
qed

text \<open>
  The mask is computed from the feature rows, not from the lengths: an encoder whose
  LSTM weights are all zero returns zero feature rows, and for a caption of valid length 2
  the mask is \<open>[0, 0]\<close>, not \<open>[1, 1]\<close>.
\<close>

theorem encoder_mask_zero_weights:
  "CaptionEncoder_forward toy_embed zero_lstm id [[3, 4, 0]] [[2]]
     = Inr ([[[0, 0], [0, 0]]], [[0, 0]], [[0, 0]])
   \<and> length_mask [2] 2 = [[1, 1]]
   \<and> [[0, 0]] \<noteq> length_mask [2] 2"
proof -
  have cell: "lstm_cell zero_weights ([0], [0]) [x] = ([0], [0])" for x
    by (simp add: lstm_cell_def zero_weights_def dot_def sigmoid_def Let_def eval_nat_numeral)
  have fw: "CaptionEncoder_forward toy_embed zero_lstm id [[3, 4, 0]] [[2]]
              = Inr ([[[0, 0], [0, 0]]], [[0, 0]], [[0, 0]])"
    by (simp add: CaptionEncoder_forward_def squeeze_lengths_def pack_padded_sequence_def
        lstm_encoder_def pad_packed_sequence_def longest_def row_sum_mask_def zero_lstm_def
        toy_embed_def cell Let_def enumerate_eq_zip)
  have lm: "length_mask [2] 2 = [[1, 1]]"
    by (simp add: length_mask_def eval_nat_numeral)
  from fw lm show ?thesis by simp
qed

text \<open>
  Claim C5, as the code has it.  When \<^verbatim>\<open>CaptionEncoder.forward\<close> returns, the batch is
  not empty, every valid length is positive, and the mask has one row per sequence and as
  many columns \<open>T\<close> as the longest valid length.  At position \<open>t\<close> of sequence \<open>b\<close> it is
  1 exactly when \<open>t\<close> is below the valid length and the feature row there has a non-zero
  sum; in particular it is 0 at every position from the valid length on.  It equals the
  mask of the valid lengths if and only if no feature row at a valid position sums to 0.
\<close>

theorem encoder_mask_row_sums:
  assumes "CaptionEncoder_forward embedding l concat_layer src src_len
             = Inr (outputs, final_hidden, prev_cap_mask)"
  shows "\<exists>lens T.
           squeeze_lengths src_len = Inr lens \<and> length lens = length src \<and> src \<noteq> []
         \<and> (\<forall>b<length src. 0 < lens ! b \<and> nat (lens ! b) \<le> T)
         \<and> (\<exists>b<length src. nat (lens ! b) = T)
         \<and> shape (length src) T prev_cap_mask
         \<and> (\<forall>b<length src. \<forall>t<T.
               prev_cap_mask ! b ! t
                 = (if int t < lens ! b \<and> sum_list (outputs ! b ! t) \<noteq> 0 then 1 else 0))
         \<and> ((prev_cap_mask = length_mask lens T)
              = (\<forall>b<length src. \<forall>t<nat (lens ! b). sum_list (outputs ! b ! t) \<noteq> 0))"
proof -
  from encoder_mask_facts[OF assms] obtain lens T where
    lens: "squeeze_lengths src_len = Inr lens" and ll: "length lens = length src"
    and ne: "src \<noteq> []"
    and bound: "\<forall>b<length src. 0 < lens ! b \<and> nat (lens ! b) \<le> T"
    and att: "\<exists>b<length src. nat (lens ! b) = T"
    and sh: "shape (length src) T prev_cap_mask"
    and val: "\<forall>b<length src. \<forall>t<T.
               prev_cap_mask ! b ! t
                 = (if int t < lens ! b \<and> sum_list (outputs ! b ! t) \<noteq> 0 then 1 else 0)"
    by blast
  have shl: "shape (length src) T (length_mask lens T)"
    using shape_length_mask[of lens T] ll by simp
  have "(prev_cap_mask = length_mask lens T)
          = (\<forall>b<length src. \<forall>t<T. prev_cap_mask ! b ! t = length_mask lens T ! b ! t)"
    by (rule shape_eq_iff[OF sh shl])
  also have "\<dots> = (\<forall>b<length src. \<forall>t<T. int t < lens ! b \<longrightarrow> sum_list (outputs ! b ! t) \<noteq> 0)"
    using val ll by (auto simp: length_mask_nth)
  also have "\<dots> = (\<forall>b<length src. \<forall>t<nat (lens ! b). sum_list (outputs ! b ! t) \<noteq> 0)"
  proof (intro iffI allI impI)
    fix b t assume a: "\<forall>b<length src. \<forall>t<T. int t < lens ! b \<longrightarrow> sum_list (outputs ! b ! t) \<noteq> 0"
      and b: "b < length src" and t: "t < nat (lens ! b)"
    from bound b t have "t < T" "int t < lens ! b" by auto
    with a b show "sum_list (outputs ! b ! t) \<noteq> 0" by blast
  next
    fix b t assume a: "\<forall>b<length src. \<forall>t<nat (lens ! b). sum_list (outputs ! b ! t) \<noteq> 0"
      and b: "b < length src" and t: "int t < lens ! b"
    from t have "t < nat (lens ! b)" by simp
    with a b show "sum_list (outputs ! b ! t) \<noteq> 0" by blast
  qed
  finally have iff: "(prev_cap_mask = length_mask lens T)
              = (\<forall>b<length src. \<forall>t<nat (lens ! b). sum_list (outputs ! b ! t) \<noteq> 0)" .
  from lens ll ne bound att sh val iff show ?thesis by blast
qed

lemma toy_encoder_run:
  "CaptionEncoder_forward toy_embed toy_recurrent id [[3, 4, 0], [5, 0, 0]] [[2], [1]]
     = Inr ([[[4, 4], [5, 5]], [[6, 6], [0, 0]]], [[5, 4], [6, 6]], [[1, 1], [1, 0]])"
  by (simp add: CaptionEncoder_forward_def squeeze_lengths_def pack_padded_sequence_def
      lstm_encoder_def pad_packed_sequence_def longest_def row_sum_mask_def toy_recurrent_def
      toy_embed_def Let_def enumerate_eq_zip eval_nat_numeral)

theorem encoder_mask_row_sums_witness:
  "CaptionEncoder_forward toy_embed toy_recurrent id [[3, 4, 0], [5, 0, 0]] [[2], [1]]
     = Inr ([[[4, 4], [5, 5]], [[6, 6], [0, 0]]], [[5, 4], [6, 6]], [[1, 1], [1, 0]])
   \<and> squeeze_lengths [[2], [1]] = Inr [2, 1]
   \<and> shape 2 2 [[1, 1], [1, 0 :: real]]
   \<and> [[1, 1], [1, 0]] = length_mask [2, 1] 2"
proof -
  have sq: "squeeze_lengths [[2], [1]] = Inr [2, 1]" by (simp add: squeeze_lengths_def)
  from encoder_mask_row_sums[OF toy_encoder_run] obtain lens T where
    lens: "squeeze_lengths [[2], [1]] = Inr lens"
    and bound: "\<forall>b<length [[3, 4, 0], [5, 0, 0 :: int]]. 0 < lens ! b \<and> nat (lens ! b) \<le> T"
    and att: "\<exists>b<length [[3, 4, 0], [5, 0, 0 :: int]]. nat (lens ! b) = T"
    and sh: "shape (length [[3, 4, 0], [5, 0, 0 :: int]]) T [[1, 1], [1, 0 :: real]]"
    by blast
  from lens sq have l: "lens = [2, 1]" by simp
  from bound l have "2 \<le> T" by auto
  moreover from att l have "T \<le> 2" by (auto simp: less_Suc_eq numeral_2_eq_2)
  ultimately have "T = 2" by simp
  with sh have sh2: "shape 2 2 [[1, 1], [1, 0 :: real]]" by (simp add: numeral_2_eq_2)
  have lm: "[[1, 1], [1, 0]] = length_mask [2, 1] 2"
    by (simp add: length_mask_def eval_nat_numeral)
  from toy_encoder_run sq sh2 lm show ?thesis by (intro conjI)
qed

section \<open>Beam search\<close>








lemma div_mod_pair: "0 < V \<Longrightarrow> j < V \<Longrightarrow> (b * V + j) div V = b \<and> (b * V + j) mod V = j"
  for b j V :: nat
  by simp





















end
